theory Spec2Isabelle
  imports Main "HOL-Library.Word"
begin

section \<open>The fiber scheduler of util/fibers/detail/scheduler.cc\<close>

text \<open>
  Objects live in an explicit store: a \<open>FiberInterface*\<close> or a \<open>Scheduler*\<close> is an address
  (a natural number), and the store maps an address to the object it holds. Dereferencing
  an address that holds no object is an error of the model. Every member function takes the
  store and returns either an error or the store it leaves behind.

  A function that ends in a context switch is modelled up to the point where control has
  been transferred: the state it returns is the one the resumed fiber sees.
\<close>

subsection \<open>Data\<close>

datatype Type = MAIN | DISPATCH | WORKER

datatype error =
    CheckFailed string      \<comment> \<open>\<open>CHECK(...)\<close>: fatal in every build\<close>
  | DCheckFailed string     \<comment> \<open>\<open>DCHECK(...)\<close>: fatal in a debug build only\<close>
  | NullDeref               \<comment> \<open>an address that holds no object is dereferenced\<close>
  | EmptyContextResumed     \<comment> \<open>\<open>resume_with\<close> on a moved-from \<open>ctx::fiber\<close>\<close>

text \<open>
  \<open>ctx::fiber_context\<close> is opaque to the scheduler, which only moves it and tests whether it is
  populated. \<open>None\<close> is the empty (default constructed or moved-from) context; \<open>Some k\<close> is a
  populated one, \<open>k\<close> naming the fiber whose suspended stack it resumes.
\<close>

type_synonym fiber_context = "nat option"

text \<open>
  \<open>list_hook\<close> and \<open>sleep_hook\<close> are the intrusive hooks \<open>FI_ListHook\<close> and \<open>FI_SleepHook\<close>; the
  model keeps of a hook what \<open>is_linked()\<close> reads. \<open>terminated\<close> is \<open>flags.terminated\<close>.
  \<open>is_terminating_\<close> is the field that \<open>DispatcherImpl\<close> adds.
\<close>

record FiberInterface =
  use_count :: "32 word"
  terminated :: bool
  type :: Type
  name :: string
  scheduler :: "nat option"
  tp :: int
  wait_queue :: "nat list"
  entry :: fiber_context
  list_hook :: bool
  sleep_hook :: bool
  is_terminating :: bool

record Scheduler =
  main_cntx :: nat
  dispatch_cntx :: nat
  ready_queue :: "nat list"
  sleep_queue :: "nat list"
  terminate_queue :: "nat list"
  num_worker_fibers :: "32 word"
  shutdown :: bool

text \<open>
  The thread's state: the two pointers of \<open>FiberInitializer\<close>, the store, and whether the
  build has \<open>DCHECK\<close> enabled. (\<open>FiberInitializer::custom_algo\<close> is passed to
  \<open>DispatcherImpl::Run\<close> as an argument.)
\<close>

record world =
  active :: nat
  sched :: nat
  fibers :: "nat \<rightharpoonup> FiberInterface"
  scheds :: "nat \<rightharpoonup> Scheduler"
  debug :: bool

definition upd_fiber :: "nat \<Rightarrow> (FiberInterface \<Rightarrow> FiberInterface) \<Rightarrow> world \<Rightarrow> world" where
  "upd_fiber p g s = s\<lparr>fibers := (fibers s)(p := map_option g (fibers s p))\<rparr>"

definition upd_sched :: "nat \<Rightarrow> (Scheduler \<Rightarrow> Scheduler) \<Rightarrow> world \<Rightarrow> world" where
  "upd_sched p g s = s\<lparr>scheds := (scheds s)(p := map_option g (scheds s p))\<rparr>"

definition DCHECK :: "world \<Rightarrow> bool \<Rightarrow> string \<Rightarrow> (error + world) \<Rightarrow> error + world" where
  "DCHECK s c msg k = (if debug s \<and> \<not> c then Inl (DCheckFailed msg) else k)"

subsection \<open>FiberActive, SwitchTo\<close>

definition FiberActive :: "world \<Rightarrow> nat" where
  "FiberActive s = active s"

text \<open>
  \<open>SwitchTo\<close>: swap the active pointer with \<open>this\<close>, move \<open>entry_\<close> out and resume it; on the
  resumed side the lambda stores the continuation of the fiber just left into
  \<open>prev->entry_\<close>.
\<close>

definition SwitchTo :: "nat \<Rightarrow> world \<Rightarrow> error + world" where
  "SwitchTo this s =
     (let prev = active s;
          s1 = s\<lparr>active := this\<rparr>
      in case fibers s1 this of
           None \<Rightarrow> Inl NullDeref
         | Some t \<Rightarrow>
             (case entry t of
                None \<Rightarrow> Inl EmptyContextResumed
              | Some c \<Rightarrow>
                  (let s2 = upd_fiber this (\<lambda>f. f\<lparr>entry := None\<rparr>) s1
                   in case fibers s2 prev of
                        None \<Rightarrow> Inl NullDeref
                      | Some p \<Rightarrow>
                          DCHECK s2 (entry p = None) ''!prev->entry_''
                            (Inr (upd_fiber prev (\<lambda>f. f\<lparr>entry := Some prev\<rparr>) s2)))))"

subsection \<open>Scheduler\<close>

definition Preempt :: "nat \<Rightarrow> world \<Rightarrow> error + world" where
  "Preempt sd s =
     (case scheds s sd of
        None \<Rightarrow> Inl NullDeref
      | Some sc \<Rightarrow>
          (case ready_queue sc of
             [] \<Rightarrow> SwitchTo (dispatch_cntx sc) s
           | fi # rest \<Rightarrow>
               SwitchTo fi
                 (upd_fiber fi (\<lambda>f. f\<lparr>list_hook := False\<rparr>)
                   (upd_sched sd (\<lambda>c. c\<lparr>ready_queue := rest\<rparr>) s))))"

text \<open>
  Modelled from the spec: \<open>Scheduler::MarkReady\<close> is declared in scheduler.h, which is not
  among the sources. The spec: "\<open>mark_ready(f)\<close>: appends \<open>f\<close> to \<open>ready\<close>".
\<close>

definition MarkReady :: "nat \<Rightarrow> nat \<Rightarrow> world \<Rightarrow> error + world" where
  "MarkReady sd cntx s =
     (case scheds s sd of
        None \<Rightarrow> Inl NullDeref
      | Some sc \<Rightarrow>
          (case fibers s cntx of
             None \<Rightarrow> Inl NullDeref
           | Some f \<Rightarrow>
               Inr (upd_fiber cntx (\<lambda>f. f\<lparr>list_hook := True\<rparr>)
                     (upd_sched sd (\<lambda>c. c\<lparr>ready_queue := ready_queue c @ [cntx]\<rparr>) s))))"

definition Attach :: "nat \<Rightarrow> nat \<Rightarrow> world \<Rightarrow> error + world" where
  "Attach sd cntx s =
     (case scheds s sd of
        None \<Rightarrow> Inl NullDeref
      | Some sc \<Rightarrow>
          (case fibers s cntx of
             None \<Rightarrow> Inl NullDeref
           | Some f \<Rightarrow>
               (let s1 = upd_fiber cntx (\<lambda>f. f\<lparr>scheduler := Some sd\<rparr>) s
                in if type f = WORKER
                   then Inr (upd_sched sd (\<lambda>c. c\<lparr>num_worker_fibers := num_worker_fibers c + 1\<rparr>) s1)
                   else Inr s1)))"

definition ScheduleTermination :: "nat \<Rightarrow> nat \<Rightarrow> world \<Rightarrow> error + world" where
  "ScheduleTermination sd cntx s =
     (case scheds s sd of
        None \<Rightarrow> Inl NullDeref
      | Some sc \<Rightarrow>
          (case fibers s cntx of
             None \<Rightarrow> Inl NullDeref
           | Some f \<Rightarrow>
               (let s1 = upd_fiber cntx (\<lambda>f. f\<lparr>list_hook := True\<rparr>)
                           (upd_sched sd (\<lambda>c. c\<lparr>terminate_queue := terminate_queue c @ [cntx]\<rparr>) s)
                in if type f = WORKER
                   then Inr (upd_sched sd (\<lambda>c. c\<lparr>num_worker_fibers := num_worker_fibers c - 1\<rparr>) s1)
                   else Inr s1)))"

subsection \<open>FiberInterface\<close>

definition Join :: "nat \<Rightarrow> world \<Rightarrow> error + world" where
  "Join this s =
     (let act = FiberActive s
      in if act = this then Inl (CheckFailed ''active != this'')
         else case fibers s act of
                None \<Rightarrow> Inl NullDeref
              | Some a \<Rightarrow>
                  (case fibers s this of
                     None \<Rightarrow> Inl NullDeref
                   | Some t \<Rightarrow>
                       if scheduler a \<noteq> scheduler t
                       then Inl (CheckFailed ''active->scheduler_ == scheduler_'')
                       else if \<not> terminated t
                       then (let s1 = upd_fiber act (\<lambda>f. f\<lparr>list_hook := True\<rparr>)
                                        (upd_fiber this (\<lambda>f. f\<lparr>wait_queue := act # wait_queue f\<rparr>) s)
                             in case scheduler t of
                                  None \<Rightarrow> Inl NullDeref
                                | Some sd \<Rightarrow> Preempt sd s1)
                       else Inr s))"


lemma MarkReady_wait_queue:
  "MarkReady sd b s = Inr s' \<Longrightarrow>
     map_option wait_queue (fibers s' p) = map_option wait_queue (fibers s p)"
  by (auto simp: MarkReady_def upd_fiber_def upd_sched_def split: option.splits)

text \<open>The loop of \<open>Terminate\<close> that hands every joiner to its own scheduler.\<close>

function Terminate_wake :: "nat \<Rightarrow> world \<Rightarrow> error + world" where
  "Terminate_wake this s =
     (case fibers s this of
        None \<Rightarrow> Inl NullDeref
      | Some t \<Rightarrow>
          (case wait_queue t of
             [] \<Rightarrow> Inr s
           | blocked # rest \<Rightarrow>
               (let s1 = upd_fiber blocked (\<lambda>f. f\<lparr>list_hook := False\<rparr>)
                           (upd_fiber this (\<lambda>f. f\<lparr>wait_queue := rest\<rparr>) s)
                in case fibers s1 blocked of
                     None \<Rightarrow> Inl NullDeref
                   | Some b \<Rightarrow>
                       (case scheduler b of
                          None \<Rightarrow> Inl NullDeref
                        | Some sd \<Rightarrow>
                            (case MarkReady sd blocked s1 of
                               Inl e \<Rightarrow> Inl e
                             | Inr s2 \<Rightarrow> Terminate_wake this s2)))))"
  by pat_completeness auto
termination
proof (relation "measure (\<lambda>(this, s). case fibers s this of None \<Rightarrow> 0
                                       | Some t \<Rightarrow> length (wait_queue t))", goal_cases)
  case 1
  show ?case by simp
next
  case (2 this s t blocked rest s1 b sd s2)
  from MarkReady_wait_queue [OF 2(6), of this] 2(1,2,3)
  show ?case
    by (auto simp: upd_fiber_def split: option.splits if_splits)
qed

declare Terminate_wake.simps [simp del]

definition Terminate :: "nat \<Rightarrow> world \<Rightarrow> error + world" where
  "Terminate this s =
     (case fibers s this of
        None \<Rightarrow> Inl NullDeref
      | Some t \<Rightarrow>
          DCHECK s (this = FiberActive s) ''this == FiberActive()''
         (DCHECK s (\<not> list_hook t) ''!list_hook.is_linked()''
         (DCHECK s (\<not> terminated t) ''!flags.terminated''
           (let s1 = upd_fiber this (\<lambda>f. f\<lparr>terminated := True\<rparr>) s
            in case scheduler t of
                 None \<Rightarrow> Inl NullDeref
               | Some sd \<Rightarrow>
                   (case ScheduleTermination sd this s1 of
                      Inl e \<Rightarrow> Inl e
                    | Inr s2 \<Rightarrow>
                        (case Terminate_wake this s2 of
                           Inl e \<Rightarrow> Inl e
                         | Inr s3 \<Rightarrow> Preempt sd s3))))))"

definition Start :: "nat \<Rightarrow> world \<Rightarrow> error + world" where
  "Start this s =
     (case Attach (sched s) this s of
        Inl e \<Rightarrow> Inl e
      | Inr s1 \<Rightarrow> MarkReady (sched s1) this s1)"

text \<open>
  The constructor. \<open>buf\<close> is the storage of \<open>name_\<close> as the constructor finds it
  (uninitialised bytes); \<open>sizeof(name_)\<close> is its length, which scheduler.h fixes.
\<close>

definition FiberInterface_ctor :: "string \<Rightarrow> Type \<Rightarrow> 32 word \<Rightarrow> string \<Rightarrow> FiberInterface" where
  "FiberInterface_ctor buf ty cnt nm =
     (let len = min (length nm) (length buf - 1);
          buf1 = buf[len := CHR 0x00];
          buf2 = (if len \<noteq> 0 then take len nm @ drop len buf1 else buf1)
      in \<lparr>use_count = cnt, terminated = False, type = ty, name = buf2, scheduler = None,
          tp = 0, wait_queue = [], entry = None, list_hook = False, sleep_hook = False,
          is_terminating = False\<rparr>)"

text \<open>The destructor: its two checks, then the object is gone from the store.\<close>

definition FiberInterface_dtor :: "nat \<Rightarrow> world \<Rightarrow> error + world" where
  "FiberInterface_dtor this s =
     (case fibers s this of
        None \<Rightarrow> Inl NullDeref
      | Some t \<Rightarrow>
          DCHECK s (wait_queue t = []) ''wait_queue_.empty()''
         (DCHECK s (\<not> list_hook t) ''!list_hook.is_linked()''
           (Inr (s\<lparr>fibers := (fibers s)(this := None)\<rparr>))))"

text \<open>
  Modelled from the spec: \<open>intrusive_ptr_release\<close> is declared in scheduler.h, which is not
  among the sources. The spec: "releasing one strong reference per entry; entries whose
  count then reaches zero are destroyed".
\<close>

definition intrusive_ptr_release :: "nat \<Rightarrow> world \<Rightarrow> error + world" where
  "intrusive_ptr_release p s =
     (case fibers s p of
        None \<Rightarrow> Inl NullDeref
      | Some f \<Rightarrow>
          (let s1 = upd_fiber p (\<lambda>f. f\<lparr>use_count := use_count f - 1\<rparr>) s
           in if use_count f - 1 = 0 then FiberInterface_dtor p s1 else Inr s1))"

lemma intrusive_ptr_release_scheds:
  "intrusive_ptr_release p s = Inr s' \<Longrightarrow> scheds s' = scheds s"
  by (auto simp: intrusive_ptr_release_def FiberInterface_dtor_def DCHECK_def upd_fiber_def Let_def
           split: option.splits if_splits)

subsection \<open>Scheduler: termination queue, sleep queue, dispatch\<close>

function DestroyTerminated :: "nat \<Rightarrow> world \<Rightarrow> error + world" where
  "DestroyTerminated sd s =
     (case scheds s sd of
        None \<Rightarrow> Inl NullDeref
      | Some sc \<Rightarrow>
          (case terminate_queue sc of
             [] \<Rightarrow> Inr s
           | tfi # rest \<Rightarrow>
               (let s1 = upd_fiber tfi (\<lambda>f. f\<lparr>list_hook := False\<rparr>)
                           (upd_sched sd (\<lambda>c. c\<lparr>terminate_queue := rest\<rparr>) s)
                in case intrusive_ptr_release tfi s1 of
                     Inl e \<Rightarrow> Inl e
                   | Inr s2 \<Rightarrow> DestroyTerminated sd s2)))"
  by pat_completeness auto
termination
proof (relation "measure (\<lambda>(sd, s). case scheds s sd of None \<Rightarrow> 0
                                     | Some sc \<Rightarrow> length (terminate_queue sc))", goal_cases)
  case 1
  show ?case by simp
next
  case (2 sd s sc tfi rest s1 s2)
  from intrusive_ptr_release_scheds [OF 2(4)] 2(1,2,3)
  show ?case
    by (auto simp: upd_fiber_def upd_sched_def split: option.splits)
qed

declare DestroyTerminated.simps [simp del]

text \<open>\<open>LOG(WARNING)\<close> writes to the log only and is not part of the state.\<close>

definition DefaultDispatch :: "nat \<Rightarrow> world \<Rightarrow> error + world" where
  "DefaultDispatch sd s =
     (case scheds s sd of
        None \<Rightarrow> Inl NullDeref
      | Some sc \<Rightarrow>
          DCHECK s (ready_queue sc = []) ''ready_queue_.empty()''
            (DestroyTerminated sd s))"

text \<open>
  Modelled from the spec: the type of \<open>sleep_queue_\<close> and its comparison are declared in
  scheduler.h, which is not among the sources. The spec: "time-ordered set of fibers blocked
  until a deadline, ordered by \<open>wake_time\<close> ascending", "ties broken arbitrarily (insertion
  order acceptable)". The queue is the list of its fibers in that order; \<open>insert\<close> puts a
  fiber behind those that are not later than it, \<open>begin()\<close> is the head.
\<close>

definition tp_of :: "world \<Rightarrow> nat \<Rightarrow> int" where
  "tp_of s p = (case fibers s p of None \<Rightarrow> 0 | Some f \<Rightarrow> tp f)"

fun sleep_insert :: "(nat \<Rightarrow> int) \<Rightarrow> nat \<Rightarrow> nat list \<Rightarrow> nat list" where
  "sleep_insert key me [] = [me]"
| "sleep_insert key me (x # xs) =
     (if key me < key x then me # x # xs else x # sleep_insert key me xs)"

definition WaitUntil :: "nat \<Rightarrow> int \<Rightarrow> nat \<Rightarrow> world \<Rightarrow> error + world" where
  "WaitUntil sd deadline me s =
     (case scheds s sd of
        None \<Rightarrow> Inl NullDeref
      | Some sc \<Rightarrow>
          (case fibers s me of
             None \<Rightarrow> Inl NullDeref
           | Some m \<Rightarrow>
               DCHECK s (\<not> sleep_hook m) ''!me->sleep_hook.is_linked()''
                 (let s1 = upd_fiber me (\<lambda>f. f\<lparr>tp := deadline\<rparr>) s;
                      s2 = upd_fiber me (\<lambda>f. f\<lparr>sleep_hook := True\<rparr>)
                             (upd_sched sd
                                (\<lambda>c. c\<lparr>sleep_queue := sleep_insert (tp_of s1) me (sleep_queue c)\<rparr>) s1)
                  in Preempt sd s2)))"

lemma MarkReady_sleep_queue:
  "MarkReady sd b s = Inr s' \<Longrightarrow>
     map_option sleep_queue (scheds s' p) = map_option sleep_queue (scheds s p)"
  by (auto simp: MarkReady_def upd_fiber_def upd_sched_def split: option.splits)

text \<open>
  The loop of \<open>ProcessSleep\<close>. \<open>now\<close> is what \<open>chrono::steady_clock::now()\<close> returned. The
  loop is entered with a non-empty queue only, and leaves as soon as the queue is empty.
\<close>

function ProcessSleep_loop :: "int \<Rightarrow> nat \<Rightarrow> world \<Rightarrow> error + world" where
  "ProcessSleep_loop now sd s =
     (case scheds s sd of
        None \<Rightarrow> Inl NullDeref
      | Some sc \<Rightarrow>
          (case sleep_queue sc of
             [] \<Rightarrow> Inl NullDeref
           | fi # rest \<Rightarrow>
               (case fibers s fi of
                  None \<Rightarrow> Inl NullDeref
                | Some f \<Rightarrow>
                    if tp f \<ge> now
                    then (case MarkReady sd fi s of
                            Inl e \<Rightarrow> Inl e
                          | Inr s1 \<Rightarrow>
                              (let s2 = upd_fiber fi (\<lambda>f. f\<lparr>sleep_hook := False\<rparr>)
                                          (upd_sched sd
                                             (\<lambda>c. c\<lparr>sleep_queue := remove1 fi (sleep_queue c)\<rparr>) s1)
                               in if (case scheds s2 sd of None \<Rightarrow> True
                                      | Some c \<Rightarrow> sleep_queue c = [])
                                  then Inr s2
                                  else ProcessSleep_loop now sd s2))
                    else Inr s)))"
  by pat_completeness auto
termination
proof (relation "measure (\<lambda>(now, sd, s). case scheds s sd of None \<Rightarrow> 0
                                          | Some sc \<Rightarrow> length (sleep_queue sc))", goal_cases)
  case 1
  show ?case by simp
next
  case (2 now sd s sc fi rest f s1 s2)
  from MarkReady_sleep_queue [OF 2(5), of sd] 2(1,2,6)
  show ?case
    by (auto simp: upd_fiber_def upd_sched_def split: option.splits)
qed

declare ProcessSleep_loop.simps [simp del]

definition ProcessSleep :: "int \<Rightarrow> nat \<Rightarrow> world \<Rightarrow> error + world" where
  "ProcessSleep now sd s =
     (case scheds s sd of
        None \<Rightarrow> Inl NullDeref
      | Some sc \<Rightarrow> if sleep_queue sc = [] then Inr s else ProcessSleep_loop now sd s)"

subsection \<open>DispatcherImpl\<close>

text \<open>
  \<open>Run\<close> either returns a continuation to its caller or ends by switching to the main
  fiber. \<open>custom_algo\<close> is \<open>FbInitializer().custom_algo\<close>, an empty \<open>std::function\<close> being
  \<open>None\<close>.
\<close>

datatype Run_result = Returned fiber_context | SwitchedAway

definition Run ::
  "(nat \<Rightarrow> world \<Rightarrow> error + world) option \<Rightarrow> nat \<Rightarrow> fiber_context \<Rightarrow> world
     \<Rightarrow> error + (Run_result \<times> world)" where
  "Run custom_algo this c s =
     (if c \<noteq> None then Inr (Returned c, s)
      else case (case custom_algo of
                   Some algo \<Rightarrow> algo (sched s) s
                 | None \<Rightarrow> DefaultDispatch (sched s) s) of
             Inl e \<Rightarrow> Inl e
           | Inr s1 \<Rightarrow>
               (let s2 = upd_fiber this (\<lambda>f. f\<lparr>is_terminating := True\<rparr>) s1
                in case scheds s2 (sched s2) of
                     None \<Rightarrow> Inl NullDeref
                   | Some sc \<Rightarrow>
                       (case SwitchTo (main_cntx sc) s2 of
                          Inl e \<Rightarrow> Inl e
                        | Inr s3 \<Rightarrow> Inr (SwitchedAway, s3))))"

subsection \<open>Joiner lists\<close>



subsection \<open>Runs\<close>

text \<open>
  A run is a list of calls of the functions above, each applied to the state the one before
  left behind; it stops at the first error. \<open>Op_Run\<close> is the dispatcher's body with no
  custom algorithm installed.
\<close>

datatype op =
    Op_SwitchTo nat
  | Op_Preempt nat
  | Op_MarkReady nat nat
  | Op_Attach nat nat
  | Op_ScheduleTermination nat nat
  | Op_DestroyTerminated nat
  | Op_DefaultDispatch nat
  | Op_WaitUntil nat int nat
  | Op_ProcessSleep int nat
  | Op_Join nat
  | Op_Terminate nat
  | Op_Start nat
  | Op_Run nat fiber_context

fun exec :: "op \<Rightarrow> world \<Rightarrow> error + world" where
  "exec (Op_SwitchTo this) s = SwitchTo this s"
| "exec (Op_Preempt sd) s = Preempt sd s"
| "exec (Op_MarkReady sd cntx) s = MarkReady sd cntx s"
| "exec (Op_Attach sd cntx) s = Attach sd cntx s"
| "exec (Op_ScheduleTermination sd cntx) s = ScheduleTermination sd cntx s"
| "exec (Op_DestroyTerminated sd) s = DestroyTerminated sd s"
| "exec (Op_DefaultDispatch sd) s = DefaultDispatch sd s"
| "exec (Op_WaitUntil sd deadline me) s = WaitUntil sd deadline me s"
| "exec (Op_ProcessSleep now sd) s = ProcessSleep now sd s"
| "exec (Op_Join this) s = Join this s"
| "exec (Op_Terminate this) s = Terminate this s"
| "exec (Op_Start this) s = Start this s"
| "exec (Op_Run this c) s =
     (case Run None this c s of Inl e \<Rightarrow> Inl e | Inr (r, s') \<Rightarrow> Inr s')"

fun exec_all :: "op list \<Rightarrow> world \<Rightarrow> error + world" where
  "exec_all [] s = Inr s"
| "exec_all (x # xs) s = (case exec x s of Inl e \<Rightarrow> Inl e | Inr s' \<Rightarrow> exec_all xs s')"



definition evolves :: "nat set \<Rightarrow> world \<Rightarrow> world \<Rightarrow> bool" where
  "evolves X s s' =
     (\<forall>q f'. fibers s' q = Some f' \<longrightarrow>
        (\<exists>f. fibers s q = Some f \<and> (terminated f \<longrightarrow> terminated f') \<and>
             (q \<notin> X \<longrightarrow> wait_queue f' = wait_queue f)))"

text \<open>
  \<open>detached C W s\<close>: fiber \<open>C\<close> is in no ready queue and no sleep queue, is no scheduler's
  main or dispatcher fiber, and is in the joiner list of no fiber outside \<open>W\<close>.
  \<open>parked\<close>: moreover it is not the active fiber. A call is \<open>legal\<close> for a parked fiber when
  it neither names \<open>C\<close> as the fiber to switch to, to mark ready, to start or to put to
  sleep, nor terminates a fiber of \<open>W\<close>.
\<close>

definition detached :: "nat \<Rightarrow> nat set \<Rightarrow> world \<Rightarrow> bool" where
  "detached C W s \<longleftrightarrow>
     (\<forall>sd sc. scheds s sd = Some sc \<longrightarrow>
        C \<notin> set (ready_queue sc) \<and> C \<notin> set (sleep_queue sc) \<and>
        dispatch_cntx sc \<noteq> C \<and> main_cntx sc \<noteq> C) \<and>
     (\<forall>x f. fibers s x = Some f \<longrightarrow> C \<in> set (wait_queue f) \<longrightarrow> x \<in> W)"

definition parked :: "nat \<Rightarrow> nat set \<Rightarrow> world \<Rightarrow> bool" where
  "parked C W s \<longleftrightarrow> FiberActive s \<noteq> C \<and> detached C W s"

fun legal :: "nat \<Rightarrow> nat set \<Rightarrow> op \<Rightarrow> bool" where
  "legal C W (Op_SwitchTo this) = (this \<noteq> C)"
| "legal C W (Op_MarkReady sd cntx) = (cntx \<noteq> C)"
| "legal C W (Op_Start this) = (this \<noteq> C)"
| "legal C W (Op_WaitUntil sd deadline me) = (me \<noteq> C)"
| "legal C W (Op_Terminate this) = (this \<notin> W)"
| "legal C W _ = True"

subsection \<open>Readings of the state\<close>

text \<open>
  The name as it is read back (\<open>DVLOG(1) << "Destructing " << tfi->name_\<close>): the bytes of
  the buffer before the first NUL.
\<close>

definition c_str :: "string \<Rightarrow> string" where
  "c_str buf = takeWhile (\<lambda>c. c \<noteq> CHR 0x00) buf"

text \<open>
  The data model's reading of \<open>entry_\<close>: present when the fiber is not running, moved out
  while it runs. A state satisfies it when the fibers with an empty continuation are
  exactly the active one.
\<close>

definition running_is_active :: "world \<Rightarrow> bool" where
  "running_is_active s =
     (\<forall>q f. fibers s q = Some f \<longrightarrow> (entry f = None) = (q = FiberActive s))"

subsection \<open>Concrete states\<close>

text \<open>
  A thread with its main fiber (address 0), the dispatcher (1) and three workers: 2 is
  running, 3 and 4 are ready, in that order.
\<close>

definition ex_fiber :: "Type \<Rightarrow> fiber_context \<Rightarrow> bool \<Rightarrow> FiberInterface" where
  "ex_fiber ty e linked =
     \<lparr>use_count = 1, terminated = False, type = ty, name = [CHR 0x00], scheduler = Some 0,
      tp = 0, wait_queue = [], entry = e, list_hook = linked, sleep_hook = False,
      is_terminating = False\<rparr>"

definition ex_sched :: "nat list \<Rightarrow> Scheduler" where
  "ex_sched rq =
     \<lparr>main_cntx = 0, dispatch_cntx = 1, ready_queue = rq, sleep_queue = [],
      terminate_queue = [], num_worker_fibers = 3, shutdown = False\<rparr>"

definition ex_world :: world where
  "ex_world =
     \<lparr>active = 2, sched = 0,
      fibers = [0 \<mapsto> ex_fiber MAIN (Some 0) False, 1 \<mapsto> ex_fiber DISPATCH (Some 1) False,
                2 \<mapsto> ex_fiber WORKER None False, 3 \<mapsto> ex_fiber WORKER (Some 3) True,
                4 \<mapsto> ex_fiber WORKER (Some 4) True],
      scheds = [0 \<mapsto> ex_sched [3, 4]],
      debug = True\<rparr>"

definition ex_world_joined :: world where
  "ex_world_joined = upd_fiber 4 (\<lambda>f. f\<lparr>terminated := True\<rparr>) ex_world"

definition ex_world_idle :: world where
  "ex_world_idle = upd_sched 0 (\<lambda>c. c\<lparr>ready_queue := []\<rparr>) ex_world"

text \<open>
  The dispatcher (1) is running, the main fiber is suspended, worker 2 has terminated and
  waits in the termination queue, and worker 3 sleeps until \<open>deadline\<close>.
\<close>

definition ex_world_asleep :: "int \<Rightarrow> world" where
  "ex_world_asleep deadline =
     \<lparr>active = 1, sched = 0,
      fibers = [0 \<mapsto> ex_fiber MAIN (Some 0) False, 1 \<mapsto> ex_fiber DISPATCH None False,
                2 \<mapsto> (ex_fiber WORKER (Some 2) True)\<lparr>terminated := True\<rparr>,
                3 \<mapsto> (ex_fiber WORKER (Some 3) False)\<lparr>tp := deadline, sleep_hook := True\<rparr>],
      scheds = [0 \<mapsto> (ex_sched [])\<lparr>sleep_queue := [3], terminate_queue := [2], num_worker_fibers := 1\<rparr>],
      debug = True\<rparr>"


text \<open>The main fiber is running and worker 2 is ready.\<close>

definition ex_world_main :: world where
  "ex_world_main =
     \<lparr>active = 0, sched = 0,
      fibers = [0 \<mapsto> ex_fiber MAIN None False, 1 \<mapsto> ex_fiber DISPATCH (Some 1) False,
                2 \<mapsto> ex_fiber WORKER (Some 2) True],
      scheds = [0 \<mapsto> (ex_sched [2])\<lparr>num_worker_fibers := 1\<rparr>],
      debug = True\<rparr>"

section \<open>Properties\<close>

subsection \<open>The store\<close>

lemma upd_fiber_simps [simp]:
  "fibers (upd_fiber p g s) q = (if q = p then map_option g (fibers s p) else fibers s q)"
  "scheds (upd_fiber p g s) = scheds s"
  "active (upd_fiber p g s) = active s"
  "sched (upd_fiber p g s) = sched s"
  "debug (upd_fiber p g s) = debug s"
  by (simp_all add: upd_fiber_def)

lemma upd_sched_simps [simp]:
  "scheds (upd_sched p g s) q = (if q = p then map_option g (scheds s p) else scheds s q)"
  "fibers (upd_sched p g s) = fibers s"
  "active (upd_sched p g s) = active s"
  "sched (upd_sched p g s) = sched s"
  "debug (upd_sched p g s) = debug s"
  by (simp_all add: upd_sched_def)

lemma SwitchTo_Inr:
  assumes "SwitchTo this s = Inr s'"
  shows "active s' = this" and "scheds s' = scheds s" and "sched s' = sched s" and "debug s' = debug s"
    and "\<exists>t c. fibers s this = Some t \<and> entry t = Some c"
    and "active s \<noteq> this \<Longrightarrow> fibers s' this = map_option (\<lambda>f. f\<lparr>entry := None\<rparr>) (fibers s this)"
    and "fibers s' (active s) = map_option (\<lambda>f. f\<lparr>entry := Some (active s)\<rparr>) (fibers s (active s))"
    and "q \<noteq> this \<Longrightarrow> q \<noteq> active s \<Longrightarrow> fibers s' q = fibers s q"
  using assms
  by (auto simp: SwitchTo_def Let_def DCHECK_def split: option.splits if_splits)


subsection \<open>One iteration of each loop\<close>

lemma DestroyTerminated_Nil:
  "map_option terminate_queue (scheds s sd) = Some [] \<Longrightarrow> DestroyTerminated sd s = Inr s"
  by (subst DestroyTerminated.simps) auto

lemma DestroyTerminated_Cons:
  "map_option terminate_queue (scheds s sd) = Some (tfi # rest) \<Longrightarrow>
     DestroyTerminated sd s =
       (case intrusive_ptr_release tfi
               (upd_fiber tfi (\<lambda>f. f\<lparr>list_hook := False\<rparr>)
                  (upd_sched sd (\<lambda>c. c\<lparr>terminate_queue := rest\<rparr>) s)) of
          Inl e \<Rightarrow> Inl e
        | Inr s2 \<Rightarrow> DestroyTerminated sd s2)"
  by (subst DestroyTerminated.simps) (auto simp: Let_def)

lemma ProcessSleep_loop_stop:
  "map_option sleep_queue (scheds s sd) = Some (fi # rest) \<Longrightarrow>
     map_option tp (fibers s fi) = Some t \<Longrightarrow>
     \<not> now \<le> t \<Longrightarrow> ProcessSleep_loop now sd s = Inr s"
  by (subst ProcessSleep_loop.simps) auto

lemma ProcessSleep_loop_wake:
  "map_option sleep_queue (scheds s sd) = Some (fi # rest) \<Longrightarrow>
     map_option tp (fibers s fi) = Some t \<Longrightarrow>
     now \<le> t \<Longrightarrow>
     ProcessSleep_loop now sd s =
       (case MarkReady sd fi s of
          Inl e \<Rightarrow> Inl e
        | Inr s1 \<Rightarrow>
           (let s2 = upd_fiber fi (\<lambda>f. f\<lparr>sleep_hook := False\<rparr>)
                       (upd_sched sd (\<lambda>c. c\<lparr>sleep_queue := remove1 fi (sleep_queue c)\<rparr>) s1)
            in if (case scheds s2 sd of None \<Rightarrow> True | Some c \<Rightarrow> sleep_queue c = [])
               then Inr s2 else ProcessSleep_loop now sd s2))"
  by (subst ProcessSleep_loop.simps) auto

subsection \<open>What the operations leave alone\<close>

lemma SwitchTo_fibers:
  assumes "SwitchTo this s = Inr s'"
  shows "fibers s' q = map_option (\<lambda>f. f\<lparr>entry := if q = active s then Some q else None\<rparr>) (fibers s q)
         \<or> fibers s' q = fibers s q"
  using assms
  by (auto simp: SwitchTo_def Let_def DCHECK_def split: option.splits if_splits)

lemma SwitchTo_keeps_is_terminating:
  assumes "SwitchTo this s = Inr s'" and "fibers s' q = Some f'"
  shows "\<exists>f. fibers s q = Some f \<and> is_terminating f' = is_terminating f"
  using SwitchTo_fibers [OF assms(1), of q] assms(2) by (cases "fibers s q") auto

lemma intrusive_ptr_release_frame:
  assumes "intrusive_ptr_release p s = Inr s'"
  shows "scheds s' = scheds s" and "active s' = active s" and "sched s' = sched s"
    and "debug s' = debug s"
    and "fibers s' q = Some f' \<Longrightarrow> \<exists>f. fibers s q = Some f \<and> f' = f\<lparr>use_count := use_count f'\<rparr>"
  using assms
  by (auto simp: intrusive_ptr_release_def FiberInterface_dtor_def DCHECK_def Let_def
           split: option.splits if_splits)

lemma DestroyTerminated_frame:
  "DestroyTerminated sd s = Inr s' \<Longrightarrow>
     active s' = active s \<and> sched s' = sched s \<and> debug s' = debug s \<and>
     (\<forall>p. p \<noteq> sd \<longrightarrow> scheds s' p = scheds s p) \<and>
     scheds s' sd = map_option (\<lambda>c. c\<lparr>terminate_queue := []\<rparr>) (scheds s sd) \<and>
     (\<forall>q f'. fibers s' q = Some f' \<longrightarrow>
        (\<exists>f. fibers s q = Some f \<and>
             f' = f\<lparr>use_count := use_count f', list_hook := list_hook f'\<rparr>))"
proof (induction sd s rule: DestroyTerminated.induct)
  case (1 sd s)
  from "1.prems" obtain sc where sc: "scheds s sd = Some sc"
    by (subst (asm) DestroyTerminated.simps) (auto split: option.splits)
  show ?case
  proof (cases "terminate_queue sc")
    case Nil
    with sc "1.prems" have "s' = s"
      by (subst (asm) DestroyTerminated.simps) simp
    with sc Nil show ?thesis by auto
  next
    case (Cons tfi rest)
    let ?s1 = "upd_fiber tfi (\<lambda>f. f\<lparr>list_hook := False\<rparr>)
                 (upd_sched sd (\<lambda>c. c\<lparr>terminate_queue := rest\<rparr>) s)"
    from sc Cons "1.prems" obtain s2 where
      rel: "intrusive_ptr_release tfi ?s1 = Inr s2" and rest: "DestroyTerminated sd s2 = Inr s'"
      by (subst (asm) DestroyTerminated.simps) (auto simp: Let_def split: sum.splits)
    note IH = "1.IH" [OF sc Cons refl rel rest]
    note fr = intrusive_ptr_release_frame [OF rel]
    have "\<exists>f. fibers s q = Some f \<and> f' = f\<lparr>use_count := use_count f', list_hook := list_hook f'\<rparr>"
      if "fibers s' q = Some f'" for q f'
    proof -
      from IH that obtain f2 where f2: "fibers s2 q = Some f2"
          "f' = f2\<lparr>use_count := use_count f', list_hook := list_hook f'\<rparr>" by blast
      from fr(5) [OF f2(1)] obtain f1 where f1: "fibers ?s1 q = Some f1"
          "f2 = f1\<lparr>use_count := use_count f2\<rparr>" by blast
      from f1(1) obtain f where f: "fibers s q = Some f" "f1 = f \<or> f1 = f\<lparr>list_hook := False\<rparr>"
        by (auto split: if_splits)
      have "f' = f\<lparr>use_count := use_count f', list_hook := list_hook f'\<rparr>"
        using f(2) f1(2) f2(2)
        by (metis FiberInterface.surjective FiberInterface.update_convs(1,9))
      with f(1) show ?thesis by blast
    qed
    moreover have "scheds s' sd = map_option (\<lambda>c. c\<lparr>terminate_queue := []\<rparr>) (scheds s sd)"
      using IH fr(1) sc by simp
    moreover have "\<forall>p. p \<noteq> sd \<longrightarrow> scheds s' p = scheds s p"
      using IH fr(1) by simp
    ultimately show ?thesis
      using IH fr(2,3,4) by simp
  qed
qed


lemma intrusive_ptr_release_others:
  "intrusive_ptr_release p s = Inr s' \<Longrightarrow> q \<noteq> p \<Longrightarrow> fibers s' q = fibers s q"
  by (auto simp: intrusive_ptr_release_def FiberInterface_dtor_def DCHECK_def Let_def
           split: option.splits if_splits)

lemma DestroyTerminated_others:
  "DestroyTerminated sd s = Inr s' \<Longrightarrow> scheds s sd = Some sc \<Longrightarrow>
     q \<notin> set (terminate_queue sc) \<Longrightarrow> fibers s' q = fibers s q"
proof (induction sd s arbitrary: sc rule: DestroyTerminated.induct)
  case (1 sd s)
  show ?case
  proof (cases "terminate_queue sc")
    case Nil
    with "1.prems" show ?thesis
      by (subst (asm) DestroyTerminated.simps) simp
  next
    case (Cons tfi rest)
    let ?s1 = "upd_fiber tfi (\<lambda>f. f\<lparr>list_hook := False\<rparr>)
                 (upd_sched sd (\<lambda>c. c\<lparr>terminate_queue := rest\<rparr>) s)"
    from Cons "1.prems" obtain s2 where
      rel: "intrusive_ptr_release tfi ?s1 = Inr s2" and rest: "DestroyTerminated sd s2 = Inr s'"
      by (subst (asm) DestroyTerminated.simps) (auto simp: Let_def split: sum.splits)
    from intrusive_ptr_release_frame(1) [OF rel] "1.prems"(2)
    have sc2: "scheds s2 sd = Some (sc\<lparr>terminate_queue := rest\<rparr>)" by simp
    from "1.prems"(3) Cons have q: "q \<noteq> tfi" "q \<notin> set (terminate_queue (sc\<lparr>terminate_queue := rest\<rparr>))"
      by auto
    from "1.IH" [OF "1.prems"(2) Cons refl rel rest sc2 q(2)]
    have "fibers s' q = fibers s2 q" .
    also from intrusive_ptr_release_others [OF rel q(1)] have "\<dots> = fibers ?s1 q" .
    also from q(1) have "\<dots> = fibers s q" by simp
    finally show ?thesis .
  qed
qed





lemma ex_world_asleep_reaped:
  "\<exists>s'. DestroyTerminated 0 (ex_world_asleep d) = Inr s'"
  apply (subst DestroyTerminated_Cons [where tfi = 2 and rest = "[]"])
   apply (simp add: ex_world_asleep_def ex_sched_def)
  apply (simp add: intrusive_ptr_release_def FiberInterface_dtor_def DCHECK_def Let_def
      ex_world_asleep_def ex_sched_def ex_fiber_def)
  apply (subst DestroyTerminated_Nil)
   apply simp_all
  done

subsection \<open>The loop of Terminate in closed form\<close>




subsection \<open>What a call does to the fibers\<close>

lemma evolvesI:
  assumes "\<And>q f'. fibers s' q = Some f' \<Longrightarrow>
     \<exists>f. fibers s q = Some f \<and> (terminated f \<longrightarrow> terminated f') \<and>
         (q \<notin> X \<longrightarrow> wait_queue f' = wait_queue f)"
  shows "evolves X s s'"
  using assms unfolding evolves_def by blast

lemma evolvesD:
  "evolves X s s' \<Longrightarrow> fibers s' q = Some f' \<Longrightarrow>
     \<exists>f. fibers s q = Some f \<and> (terminated f \<longrightarrow> terminated f') \<and>
         (q \<notin> X \<longrightarrow> wait_queue f' = wait_queue f)"
  unfolding evolves_def by blast







lemma Preempt_cases:
  assumes "Preempt sd s = Inr s'"
  obtains (idle) sc where "scheds s sd = Some sc" "ready_queue sc = []"
      "SwitchTo (dispatch_cntx sc) s = Inr s'"
  | (pop) sc fi rest where "scheds s sd = Some sc" "ready_queue sc = fi # rest"
      "SwitchTo fi (upd_fiber fi (\<lambda>f. f\<lparr>list_hook := False\<rparr>)
                    (upd_sched sd (\<lambda>c. c\<lparr>ready_queue := rest\<rparr>) s)) = Inr s'"
  using assms by (auto simp: Preempt_def split: option.splits list.splits)


lemma MarkReady_Inr:
  "MarkReady sd b s = Inr s' \<Longrightarrow>
     s' = upd_fiber b (\<lambda>f. f\<lparr>list_hook := True\<rparr>)
            (upd_sched sd (\<lambda>c. c\<lparr>ready_queue := ready_queue c @ [b]\<rparr>) s)"
  by (auto simp: MarkReady_def split: option.splits)


lemma Attach_Inr:
  "Attach sd b s = Inr s' \<Longrightarrow>
     s' = upd_fiber b (\<lambda>f. f\<lparr>scheduler := Some sd\<rparr>) s \<or>
     s' = upd_sched sd (\<lambda>c. c\<lparr>num_worker_fibers := num_worker_fibers c + 1\<rparr>)
            (upd_fiber b (\<lambda>f. f\<lparr>scheduler := Some sd\<rparr>) s)"
  by (auto simp: Attach_def Let_def split: option.splits if_splits)


lemma ScheduleTermination_Inr:
  "ScheduleTermination sd b s = Inr s' \<Longrightarrow>
     s' = upd_fiber b (\<lambda>f. f\<lparr>list_hook := True\<rparr>)
            (upd_sched sd (\<lambda>c. c\<lparr>terminate_queue := terminate_queue c @ [b]\<rparr>) s) \<or>
     s' = upd_sched sd (\<lambda>c. c\<lparr>num_worker_fibers := num_worker_fibers c - 1\<rparr>)
            (upd_fiber b (\<lambda>f. f\<lparr>list_hook := True\<rparr>)
              (upd_sched sd (\<lambda>c. c\<lparr>terminate_queue := terminate_queue c @ [b]\<rparr>) s))"
  by (auto simp: ScheduleTermination_def Let_def split: option.splits if_splits)


lemma ev_DestroyTerminated:
  assumes "DestroyTerminated sd s = Inr s'"
  shows "evolves X s s'"
proof (rule evolvesI)
  fix q f' assume "fibers s' q = Some f'"
  with DestroyTerminated_frame [OF assms] obtain f where f:
    "fibers s q = Some f" "f' = f\<lparr>use_count := use_count f', list_hook := list_hook f'\<rparr>"
    by blast
  from f(2) have "terminated f' = terminated f" "wait_queue f' = wait_queue f"
    by (metis FiberInterface.select_convs(2) FiberInterface.surjective
          FiberInterface.update_convs(1,9),
        metis FiberInterface.select_convs(7) FiberInterface.surjective
          FiberInterface.update_convs(1,9))
  with f(1) show "\<exists>f. fibers s q = Some f \<and> (terminated f \<longrightarrow> terminated f') \<and>
             (q \<notin> X \<longrightarrow> wait_queue f' = wait_queue f)" by simp
qed


lemma WaitUntil_Inr:
  "WaitUntil sd d me s = Inr s' \<Longrightarrow>
     Preempt sd
       (upd_fiber me (\<lambda>f. f\<lparr>sleep_hook := True\<rparr>)
          (upd_sched sd
             (\<lambda>c. c\<lparr>sleep_queue :=
                      sleep_insert (tp_of (upd_fiber me (\<lambda>f. f\<lparr>tp := d\<rparr>) s)) me (sleep_queue c)\<rparr>)
             (upd_fiber me (\<lambda>f. f\<lparr>tp := d\<rparr>) s))) = Inr s'"
  by (auto simp: WaitUntil_def DCHECK_def Let_def split: option.splits if_splits)


lemma ProcessSleep_loop_cases:
  assumes "ProcessSleep_loop now sd s = Inr s'"
  obtains (stop) "s' = s"
  | (last) sc fi rest f s1 where "scheds s sd = Some sc" "sleep_queue sc = fi # rest"
      "fibers s fi = Some f" "now \<le> tp f" "MarkReady sd fi s = Inr s1"
      "s' = upd_fiber fi (\<lambda>f. f\<lparr>sleep_hook := False\<rparr>)
              (upd_sched sd (\<lambda>c. c\<lparr>sleep_queue := remove1 fi (sleep_queue c)\<rparr>) s1)"
  | (more) sc fi rest f s1 where "scheds s sd = Some sc" "sleep_queue sc = fi # rest"
      "fibers s fi = Some f" "now \<le> tp f" "MarkReady sd fi s = Inr s1"
      "\<not> (case scheds (upd_fiber fi (\<lambda>f. f\<lparr>sleep_hook := False\<rparr>)
              (upd_sched sd (\<lambda>c. c\<lparr>sleep_queue := remove1 fi (sleep_queue c)\<rparr>) s1)) sd of
             None \<Rightarrow> True | Some c \<Rightarrow> sleep_queue c = [])"
      "ProcessSleep_loop now sd
         (upd_fiber fi (\<lambda>f. f\<lparr>sleep_hook := False\<rparr>)
              (upd_sched sd (\<lambda>c. c\<lparr>sleep_queue := remove1 fi (sleep_queue c)\<rparr>) s1)) = Inr s'"
proof -
  from assms obtain sc fi rest f where
    sc: "scheds s sd = Some sc" "sleep_queue sc = fi # rest" "fibers s fi = Some f"
    by (subst (asm) ProcessSleep_loop.simps) (auto split: option.splits list.splits)
  show ?thesis
  proof (cases "now \<le> tp f")
    case False
    with sc assms have "s' = s"
      by (subst (asm) ProcessSleep_loop.simps) simp
    then show ?thesis by (rule stop)
  next
    case True
    with sc assms obtain s1 where mr: "MarkReady sd fi s = Inr s1"
      by (subst (asm) ProcessSleep_loop.simps) (auto split: sum.splits)
    let ?s2 = "upd_fiber fi (\<lambda>f. f\<lparr>sleep_hook := False\<rparr>)
                 (upd_sched sd (\<lambda>c. c\<lparr>sleep_queue := remove1 fi (sleep_queue c)\<rparr>) s1)"
    show ?thesis
    proof (cases "case scheds ?s2 sd of None \<Rightarrow> True | Some c \<Rightarrow> sleep_queue c = []")
      case T: True
      with sc True mr assms have "s' = ?s2"
        by (subst (asm) ProcessSleep_loop.simps) (simp add: Let_def)
      with sc True mr show ?thesis by (intro last [of sc fi rest f s1]) simp_all
    next
      case F: False
      with sc True mr assms have "ProcessSleep_loop now sd ?s2 = Inr s'"
        by (subst (asm) ProcessSleep_loop.simps) (simp add: Let_def)
      with sc True mr F show ?thesis by (intro more [of sc fi rest f s1]) simp_all
    qed
  qed
qed



lemma Terminate_wake_cases:
  assumes "Terminate_wake this s = Inr s'"
  obtains (stop) t where "fibers s this = Some t" "wait_queue t = []" "s' = s"
  | (more) t blocked rest b sd s2 where "fibers s this = Some t" "wait_queue t = blocked # rest"
      "fibers (upd_fiber blocked (\<lambda>f. f\<lparr>list_hook := False\<rparr>)
                 (upd_fiber this (\<lambda>f. f\<lparr>wait_queue := rest\<rparr>) s)) blocked = Some b"
      "scheduler b = Some sd"
      "MarkReady sd blocked (upd_fiber blocked (\<lambda>f. f\<lparr>list_hook := False\<rparr>)
                 (upd_fiber this (\<lambda>f. f\<lparr>wait_queue := rest\<rparr>) s)) = Inr s2"
      "Terminate_wake this s2 = Inr s'"
proof -
  from assms obtain t where t: "fibers s this = Some t"
    by (subst (asm) Terminate_wake.simps) (auto split: option.splits)
  show ?thesis
  proof (cases "wait_queue t")
    case Nil
    with t assms have "s' = s"
      by (subst (asm) Terminate_wake.simps) simp
    with t Nil show ?thesis by (intro stop [of t]) simp_all
  next
    case (Cons blocked rest)
    let ?s1 = "upd_fiber blocked (\<lambda>f. f\<lparr>list_hook := False\<rparr>)
                 (upd_fiber this (\<lambda>f. f\<lparr>wait_queue := rest\<rparr>) s)"
    from t Cons assms obtain b sd s2 where
      "fibers ?s1 blocked = Some b" "scheduler b = Some sd"
      "MarkReady sd blocked ?s1 = Inr s2" "Terminate_wake this s2 = Inr s'"
      by (subst (asm) Terminate_wake.simps)
         (auto simp: Let_def split: option.splits sum.splits)
    with t Cons show ?thesis by (intro more [of t blocked rest b sd s2]) simp_all
  qed
qed


lemma Terminate_Inr:
  assumes "Terminate this s = Inr s'"
  obtains t sd s2 s3 where "fibers s this = Some t" "scheduler t = Some sd"
    "ScheduleTermination sd this (upd_fiber this (\<lambda>f. f\<lparr>terminated := True\<rparr>) s) = Inr s2"
    "Terminate_wake this s2 = Inr s3" "Preempt sd s3 = Inr s'"
  using assms
  by (auto simp: Terminate_def DCHECK_def Let_def split: option.splits sum.splits if_splits)


lemma Join_cases:
  assumes "Join this s = Inr s'"
  obtains (finished) a t where "fibers s (active s) = Some a" "fibers s this = Some t"
      "active s \<noteq> this" "scheduler a = scheduler t" "terminated t" "s' = s"
  | (wait) a t sd where "fibers s (active s) = Some a" "fibers s this = Some t"
      "active s \<noteq> this" "scheduler a = Some sd" "scheduler t = Some sd" "\<not> terminated t"
      "Preempt sd (upd_fiber (active s) (\<lambda>f. f\<lparr>list_hook := True\<rparr>)
                    (upd_fiber this (\<lambda>f. f\<lparr>wait_queue := active s # wait_queue f\<rparr>) s)) = Inr s'"
proof -
  from assms have ne: "active s \<noteq> this"
    by (auto simp: Join_def Let_def FiberActive_def split: if_splits)
  with assms obtain a t where at: "fibers s (active s) = Some a" "fibers s this = Some t"
      "scheduler a = scheduler t"
    by (auto simp: Join_def Let_def FiberActive_def split: option.splits if_splits)
  show ?thesis
  proof (cases "terminated t")
    case True
    with assms ne at have "s' = s"
      by (simp add: Join_def Let_def FiberActive_def)
    with ne at True show ?thesis by (intro finished [of a t]) simp_all
  next
    case False
    with assms ne at obtain sd where "scheduler t = Some sd"
      "Preempt sd (upd_fiber (active s) (\<lambda>f. f\<lparr>list_hook := True\<rparr>)
                    (upd_fiber this (\<lambda>f. f\<lparr>wait_queue := active s # wait_queue f\<rparr>) s)) = Inr s'"
      by (simp add: Join_def Let_def FiberActive_def split: option.splits)
    with ne at False show ?thesis by (intro wait [of a t sd]) simp_all
  qed
qed



lemma Run_cases:
  assumes "Run None this c s = Inr (r, s')"
  obtains (returned) "c \<noteq> None" "r = Returned c" "s' = s"
  | (switched) s1 sc where "c = None" "r = SwitchedAway" "DefaultDispatch (sched s) s = Inr s1"
      "scheds (upd_fiber this (\<lambda>f. f\<lparr>is_terminating := True\<rparr>) s1) (sched s1) = Some sc"
      "SwitchTo (main_cntx sc) (upd_fiber this (\<lambda>f. f\<lparr>is_terminating := True\<rparr>) s1) = Inr s'"
  using assms
  by (auto simp: Run_def Let_def split: option.splits sum.splits if_splits)




subsection \<open>Detached and parked fibers\<close>

text \<open>
  No call of the scheduler switches to a fiber that is in no queue; a parked fiber stays
  parked through every call that is legal for it.
\<close>

lemma detachedI:
  assumes "\<And>sd sc. scheds s sd = Some sc \<Longrightarrow>
           C \<notin> set (ready_queue sc) \<and> C \<notin> set (sleep_queue sc) \<and>
           dispatch_cntx sc \<noteq> C \<and> main_cntx sc \<noteq> C"
    and "\<And>x f. fibers s x = Some f \<Longrightarrow> C \<in> set (wait_queue f) \<Longrightarrow> x \<in> W"
  shows "detached C W s"
  using assms unfolding detached_def by blast

lemma detached_sched:
  "detached C W s \<Longrightarrow> scheds s sd = Some sc \<Longrightarrow>
     C \<notin> set (ready_queue sc) \<and> C \<notin> set (sleep_queue sc) \<and>
     dispatch_cntx sc \<noteq> C \<and> main_cntx sc \<noteq> C"
  unfolding detached_def by blast

lemma detached_wait:
  "detached C W s \<Longrightarrow> fibers s x = Some f \<Longrightarrow> C \<in> set (wait_queue f) \<Longrightarrow> x \<in> W"
  unfolding detached_def by blast

lemma det_upd_fiber:
  assumes "detached C W s"
    and "\<And>f. C \<in> set (wait_queue (g f)) \<Longrightarrow> C \<in> set (wait_queue f) \<or> p \<in> W"
  shows "detached C W (upd_fiber p g s)"
proof (rule detachedI)
  fix sd sc assume "scheds (upd_fiber p g s) sd = Some sc"
  then show "C \<notin> set (ready_queue sc) \<and> C \<notin> set (sleep_queue sc) \<and>
             dispatch_cntx sc \<noteq> C \<and> main_cntx sc \<noteq> C"
    using detached_sched [OF assms(1), of sd sc] by simp
next
  fix x f assume a: "fibers (upd_fiber p g s) x = Some f" "C \<in> set (wait_queue f)"
  show "x \<in> W"
  proof (cases "x = p")
    case True
    with a(1) obtain f0 where f0: "fibers s p = Some f0" "f = g f0" by auto
    with a(2) assms(2) have "C \<in> set (wait_queue f0) \<or> p \<in> W" by blast
    with detached_wait [OF assms(1) f0(1)] True show ?thesis by blast
  next
    case False
    with a(1) have "fibers s x = Some f" by simp
    from detached_wait [OF assms(1) this a(2)] show ?thesis .
  qed
qed

lemma det_upd_sched:
  assumes "detached C W s"
    and "\<And>c. (C \<in> set (ready_queue (g c)) \<longrightarrow> C \<in> set (ready_queue c)) \<and>
         (C \<in> set (sleep_queue (g c)) \<longrightarrow> C \<in> set (sleep_queue c)) \<and>
         dispatch_cntx (g c) = dispatch_cntx c \<and> main_cntx (g c) = main_cntx c"
  shows "detached C W (upd_sched p g s)"
proof (rule detachedI)
  fix sd sc assume a: "scheds (upd_sched p g s) sd = Some sc"
  show "C \<notin> set (ready_queue sc) \<and> C \<notin> set (sleep_queue sc) \<and>
             dispatch_cntx sc \<noteq> C \<and> main_cntx sc \<noteq> C"
  proof (cases "sd = p")
    case True
    with a obtain c0 where c0: "scheds s p = Some c0" "sc = g c0" by auto
    from detached_sched [OF assms(1) c0(1)] assms(2) [of c0] c0(2) show ?thesis by auto
  next
    case False
    with a have "scheds s sd = Some sc" by simp
    from detached_sched [OF assms(1) this] show ?thesis .
  qed
next
  fix x f assume "fibers (upd_sched p g s) x = Some f" "C \<in> set (wait_queue f)"
  then show "x \<in> W"
    using detached_wait [OF assms(1), of x f] by simp
qed

lemma det_SwitchTo:
  assumes "detached C W s" and "t \<noteq> C" and "SwitchTo t s = Inr s'"
  shows "parked C W s'"
proof -
  note sf = SwitchTo_Inr [OF assms(3)]
  have "x \<in> W" if "fibers s' x = Some f'" "C \<in> set (wait_queue f')" for x f'
  proof -
    from SwitchTo_fibers [OF assms(3), of x] that(1)
    obtain f where "fibers s x = Some f" "wait_queue f' = wait_queue f"
      by (cases "fibers s x") auto
    with that(2) detached_wait [OF assms(1)] show ?thesis by auto
  qed
  then have "detached C W s'"
    using detached_sched [OF assms(1)] sf(2) by (intro detachedI) auto
  with sf(1) assms(2) show ?thesis by (simp add: parked_def FiberActive_def)
qed

lemma det_Preempt:
  assumes "detached C W s" and "Preempt sd s = Inr s'"
  shows "parked C W s'"
  using assms(2)
proof (cases rule: Preempt_cases)
  case (idle sc)
  from detached_sched [OF assms(1) idle(1)] have "dispatch_cntx sc \<noteq> C" by simp
  with assms(1) idle(3) show ?thesis by (auto intro: det_SwitchTo)
next
  case (pop sc fi rest)
  from detached_sched [OF assms(1) pop(1)] pop(2) have ne: "fi \<noteq> C" "C \<notin> set rest" by auto
  have "detached C W (upd_sched sd (\<lambda>c. c\<lparr>ready_queue := rest\<rparr>) s)"
    using assms(1) ne(2) by (intro det_upd_sched) auto
  then have "detached C W (upd_fiber fi (\<lambda>f. f\<lparr>list_hook := False\<rparr>)
                          (upd_sched sd (\<lambda>c. c\<lparr>ready_queue := rest\<rparr>) s))"
    by (rule det_upd_fiber) simp
  from this ne(1) pop(3) show ?thesis by (rule det_SwitchTo)
qed

lemma det_MarkReady:
  assumes "detached C W s" and "b \<noteq> C" and "MarkReady sd b s = Inr s'"
  shows "detached C W s'"
proof -
  have "detached C W (upd_sched sd (\<lambda>c. c\<lparr>ready_queue := ready_queue c @ [b]\<rparr>) s)"
    using assms(1,2) by (intro det_upd_sched) auto
  then show ?thesis unfolding MarkReady_Inr [OF assms(3)] by (rule det_upd_fiber) simp
qed

lemma active_MarkReady: "MarkReady sd b s = Inr s' \<Longrightarrow> active s' = active s"
  by (drule MarkReady_Inr) simp

lemma det_Attach:
  assumes "detached C W s" and "Attach sd b s = Inr s'"
  shows "detached C W s'"
proof -
  let ?s1 = "upd_fiber b (\<lambda>f. f\<lparr>scheduler := Some sd\<rparr>) s"
  have p1: "detached C W ?s1"
    using assms(1) by (rule det_upd_fiber) simp
  have "detached C W (upd_sched sd (\<lambda>c. c\<lparr>num_worker_fibers := num_worker_fibers c + 1\<rparr>) ?s1)"
    using p1 by (rule det_upd_sched) simp
  with p1 Attach_Inr [OF assms(2)] show ?thesis by auto
qed

lemma active_Attach: "Attach sd b s = Inr s' \<Longrightarrow> active s' = active s"
  by (drule Attach_Inr) auto

lemma det_ScheduleTermination:
  assumes "detached C W s" and "ScheduleTermination sd b s = Inr s'"
  shows "detached C W s'"
proof -
  let ?s1 = "upd_fiber b (\<lambda>f. f\<lparr>list_hook := True\<rparr>)
               (upd_sched sd (\<lambda>c. c\<lparr>terminate_queue := terminate_queue c @ [b]\<rparr>) s)"
  have "detached C W (upd_sched sd (\<lambda>c. c\<lparr>terminate_queue := terminate_queue c @ [b]\<rparr>) s)"
    using assms(1) by (rule det_upd_sched) simp
  then have p1: "detached C W ?s1"
    by (rule det_upd_fiber) simp
  have "detached C W (upd_sched sd (\<lambda>c. c\<lparr>num_worker_fibers := num_worker_fibers c - 1\<rparr>) ?s1)"
    using p1 by (rule det_upd_sched) simp
  with p1 ScheduleTermination_Inr [OF assms(2)] show ?thesis by auto
qed

lemma active_ScheduleTermination: "ScheduleTermination sd b s = Inr s' \<Longrightarrow> active s' = active s"
  by (drule ScheduleTermination_Inr) auto

lemma det_DestroyTerminated:
  assumes "detached C W s" and "DestroyTerminated sd s = Inr s'"
  shows "detached C W s'"
proof (rule detachedI)
  note fr = DestroyTerminated_frame [OF assms(2)]
  fix p sc assume a: "scheds s' p = Some sc"
  show "C \<notin> set (ready_queue sc) \<and> C \<notin> set (sleep_queue sc) \<and>
           dispatch_cntx sc \<noteq> C \<and> main_cntx sc \<noteq> C"
  proof (cases "p = sd")
    case True
    with fr a obtain c where "scheds s sd = Some c" "sc = c\<lparr>terminate_queue := []\<rparr>"
      by auto
    with detached_sched [OF assms(1), of sd c] show ?thesis by auto
  next
    case False
    with fr a have "scheds s p = Some sc" by simp
    from detached_sched [OF assms(1) this] show ?thesis .
  qed
next
  fix x f' assume a: "fibers s' x = Some f'" "C \<in> set (wait_queue f')"
  from evolvesD [OF ev_DestroyTerminated [OF assms(2), of "{}"] a(1)]
  obtain f where "fibers s x = Some f" "wait_queue f' = wait_queue f" by auto
  with a(2) detached_wait [OF assms(1)] show "x \<in> W" by auto
qed

lemma active_DestroyTerminated: "DestroyTerminated sd s = Inr s' \<Longrightarrow> active s' = active s"
  by (drule DestroyTerminated_frame) simp

lemma det_DefaultDispatch:
  "detached C W s \<Longrightarrow> DefaultDispatch sd s = Inr s' \<Longrightarrow> detached C W s'"
  by (auto simp: DefaultDispatch_def DCHECK_def split: option.splits if_splits
           dest: det_DestroyTerminated)

lemma active_DefaultDispatch: "DefaultDispatch sd s = Inr s' \<Longrightarrow> active s' = active s"
  by (auto simp: DefaultDispatch_def DCHECK_def split: option.splits if_splits
           dest: active_DestroyTerminated)

lemma set_sleep_insert: "set (sleep_insert key me xs) = insert me (set xs)"
  by (induction xs) auto

lemma det_WaitUntil:
  assumes "detached C W s" and "me \<noteq> C" and "WaitUntil sd d me s = Inr s'"
  shows "parked C W s'"
proof -
  let ?s1 = "upd_fiber me (\<lambda>f. f\<lparr>tp := d\<rparr>) s"
  let ?s2 = "upd_fiber me (\<lambda>f. f\<lparr>sleep_hook := True\<rparr>)
               (upd_sched sd (\<lambda>c. c\<lparr>sleep_queue := sleep_insert (tp_of ?s1) me (sleep_queue c)\<rparr>) ?s1)"
  have "detached C W ?s1" using assms(1) by (rule det_upd_fiber) simp
  then have "detached C W (upd_sched sd
      (\<lambda>c. c\<lparr>sleep_queue := sleep_insert (tp_of ?s1) me (sleep_queue c)\<rparr>) ?s1)"
    using assms(2) by (intro det_upd_sched) (auto simp: set_sleep_insert)
  then have "detached C W ?s2" by (rule det_upd_fiber) simp
  from this WaitUntil_Inr [OF assms(3)] show ?thesis by (rule det_Preempt)
qed

lemma det_ProcessSleep_loop:
  "ProcessSleep_loop now sd s = Inr s' \<Longrightarrow>
     active s' = active s \<and> (detached C W s \<longrightarrow> detached C W s')"
proof (induction now sd s rule: ProcessSleep_loop.induct)
  case (1 now sd s)
  from "1.prems" show ?case
  proof (cases rule: ProcessSleep_loop_cases)
    case stop
    then show ?thesis by simp
  next
    case (last sc fi rest f s1)
    have "detached C W s'" if d: "detached C W s"
    proof -
      from detached_sched [OF d last(1)] last(2) have ne: "fi \<noteq> C" by auto
      from d ne last(5) have "detached C W s1" by (rule det_MarkReady)
      then have "detached C W (upd_sched sd (\<lambda>c. c\<lparr>sleep_queue := remove1 fi (sleep_queue c)\<rparr>) s1)"
        by (intro det_upd_sched) (auto dest: set_remove1_subset [THEN subsetD])
      then show ?thesis unfolding last(6) by (rule det_upd_fiber) simp
    qed
    with active_MarkReady [OF last(5)] last(6) show ?thesis by simp
  next
    case (more sc fi rest f s1)
    let ?s2 = "upd_fiber fi (\<lambda>f. f\<lparr>sleep_hook := False\<rparr>)
                 (upd_sched sd (\<lambda>c. c\<lparr>sleep_queue := remove1 fi (sleep_queue c)\<rparr>) s1)"
    note IH = "1.IH" [OF more(1,2,3,4,5) refl more(6,7)]
    have "detached C W ?s2" if d: "detached C W s"
    proof -
      from detached_sched [OF d more(1)] more(2) have ne: "fi \<noteq> C" by auto
      from d ne more(5) have "detached C W s1" by (rule det_MarkReady)
      then have "detached C W (upd_sched sd (\<lambda>c. c\<lparr>sleep_queue := remove1 fi (sleep_queue c)\<rparr>) s1)"
        by (intro det_upd_sched) (auto dest: set_remove1_subset [THEN subsetD])
      then show ?thesis by (rule det_upd_fiber) simp
    qed
    with IH active_MarkReady [OF more(5)] show ?thesis by simp
  qed
qed

lemma det_ProcessSleep:
  "ProcessSleep now sd s = Inr s' \<Longrightarrow>
     active s' = active s \<and> (detached C W s \<longrightarrow> detached C W s')"
  by (auto simp: ProcessSleep_def split: option.splits if_splits
           dest: det_ProcessSleep_loop)

lemma det_Terminate_wake:
  "detached C W s \<Longrightarrow> this \<notin> W \<Longrightarrow> Terminate_wake this s = Inr s' \<Longrightarrow> detached C W s'"
proof (induction this s rule: Terminate_wake.induct)
  case (1 this s)
  from "1.prems"(3) show ?case
  proof (cases rule: Terminate_wake_cases)
    case (stop t)
    with "1.prems"(1) show ?thesis by simp
  next
    case (more t blocked rest b sd s2)
    let ?s1 = "upd_fiber blocked (\<lambda>f. f\<lparr>list_hook := False\<rparr>)
                 (upd_fiber this (\<lambda>f. f\<lparr>wait_queue := rest\<rparr>) s)"
    have nin: "C \<notin> set (wait_queue t)"
      using detached_wait [OF "1.prems"(1) more(1)] "1.prems"(2) by auto
    with more(2) have ne: "blocked \<noteq> C" "C \<notin> set rest" by auto
    have "detached C W (upd_fiber this (\<lambda>f. f\<lparr>wait_queue := rest\<rparr>) s)"
      using "1.prems"(1) ne(2) by (intro det_upd_fiber) auto
    then have "detached C W ?s1" by (rule det_upd_fiber) simp
    from this ne(1) more(5) have "detached C W s2" by (rule det_MarkReady)
    from "1.IH" [OF more(1,2) refl more(3,4,5) this "1.prems"(2) more(6)] show ?thesis .
  qed
qed

lemma det_Terminate:
  assumes "detached C W s" and "this \<notin> W" and "Terminate this s = Inr s'"
  shows "parked C W s'"
  using assms(3)
proof (cases rule: Terminate_Inr)
  case (1 t sd s2 s3)
  have "detached C W (upd_fiber this (\<lambda>f. f\<lparr>terminated := True\<rparr>) s)"
    using assms(1) by (rule det_upd_fiber) simp
  from this 1(3) have "detached C W s2" by (rule det_ScheduleTermination)
  from this assms(2) 1(4) have "detached C W s3" by (rule det_Terminate_wake)
  from this 1(5) show ?thesis by (rule det_Preempt)
qed

lemma det_Join_wait:
  assumes "detached C W s" and "active s \<noteq> C \<or> this \<in> W"
  shows "detached C W (upd_fiber (active s) (\<lambda>f. f\<lparr>list_hook := True\<rparr>)
                    (upd_fiber this (\<lambda>f. f\<lparr>wait_queue := active s # wait_queue f\<rparr>) s))"
proof -
  have "detached C W (upd_fiber this (\<lambda>f. f\<lparr>wait_queue := active s # wait_queue f\<rparr>) s)"
    using assms by (intro det_upd_fiber) auto
  then show ?thesis by (rule det_upd_fiber) simp
qed

lemma parked_Join:
  assumes "parked C W s" and "Join this s = Inr s'"
  shows "parked C W s'"
  using assms(2)
proof (cases rule: Join_cases)
  case (finished a t)
  with assms(1) show ?thesis by simp
next
  case (wait a t sd)
  from assms(1) have "detached C W s" "active s \<noteq> C"
    by (simp_all add: parked_def FiberActive_def)
  from det_Preempt [OF det_Join_wait wait(7)] this show ?thesis by simp
qed

lemma det_Start:
  assumes "detached C W s" and "this \<noteq> C" and "Start this s = Inr s'"
  shows "detached C W s' \<and> active s' = active s"
proof -
  from assms(3) obtain s1 where a: "Attach (sched s) this s = Inr s1"
    and m: "MarkReady (sched s1) this s1 = Inr s'"
    by (auto simp: Start_def split: sum.splits)
  from assms(1) a have "detached C W s1" by (rule det_Attach)
  from this assms(2) m have "detached C W s'" by (rule det_MarkReady)
  with active_Attach [OF a] active_MarkReady [OF m] show ?thesis by simp
qed

lemma parked_Run:
  assumes "parked C W s" and "Run None this c s = Inr (r, s')"
  shows "parked C W s'"
  using assms(2)
proof (cases rule: Run_cases)
  case returned
  with assms(1) show ?thesis by simp
next
  case (switched s1 sc)
  from assms(1) have "detached C W s" by (simp add: parked_def)
  from this switched(3) have "detached C W s1" by (rule det_DefaultDispatch)
  then have p: "detached C W (upd_fiber this (\<lambda>f. f\<lparr>is_terminating := True\<rparr>) s1)"
    by (rule det_upd_fiber) simp
  from detached_sched [OF p switched(4)] have "main_cntx sc \<noteq> C" by simp
  from p this switched(5) show ?thesis by (rule det_SwitchTo)
qed

lemma parked_exec:
  assumes "parked C W s" and "legal C W x" and "exec x s = Inr s'"
  shows "parked C W s'"
proof -
  from assms(1) have d: "detached C W s" and a: "active s \<noteq> C"
    by (simp_all add: parked_def FiberActive_def)
  show ?thesis
  proof (cases x)
    case (Op_SwitchTo t)
    with assms d show ?thesis by (auto intro: det_SwitchTo)
  next
    case (Op_Preempt sd)
    with assms d show ?thesis by (auto intro: det_Preempt)
  next
    case (Op_MarkReady sd b)
    with assms d a show ?thesis
      by (auto simp: parked_def FiberActive_def dest: det_MarkReady active_MarkReady)
  next
    case (Op_Attach sd b)
    with assms d a show ?thesis
      by (auto simp: parked_def FiberActive_def dest: det_Attach active_Attach)
  next
    case (Op_ScheduleTermination sd b)
    with assms d a show ?thesis
      by (auto simp: parked_def FiberActive_def
               dest: det_ScheduleTermination active_ScheduleTermination)
  next
    case (Op_DestroyTerminated sd)
    with assms d a show ?thesis
      by (auto simp: parked_def FiberActive_def
               dest: det_DestroyTerminated active_DestroyTerminated)
  next
    case (Op_DefaultDispatch sd)
    with assms d a show ?thesis
      by (auto simp: parked_def FiberActive_def
               dest: det_DefaultDispatch active_DefaultDispatch)
  next
    case (Op_WaitUntil sd dl me)
    with assms d show ?thesis by (auto intro: det_WaitUntil)
  next
    case (Op_ProcessSleep now sd)
    with assms(3) have "ProcessSleep now sd s = Inr s'" by simp
    from det_ProcessSleep [OF this, of C W] d a show ?thesis
      by (simp add: parked_def FiberActive_def)
  next
    case (Op_Join t)
    with assms show ?thesis by (auto intro: parked_Join)
  next
    case (Op_Terminate t)
    with assms d show ?thesis by (auto intro: det_Terminate)
  next
    case (Op_Start t)
    with assms(2,3) have "t \<noteq> C" "Start t s = Inr s'" by simp_all
    from det_Start [OF d this] a show ?thesis
      by (simp add: parked_def FiberActive_def)
  next
    case (Op_Run t c)
    with assms(3) obtain r where "Run None t c s = Inr (r, s')"
      by (auto split: sum.splits prod.splits)
    with assms(1) show ?thesis by (rule parked_Run)
  qed
qed

lemma parked_exec_all:
  "parked C W s \<Longrightarrow> list_all (legal C W) xs \<Longrightarrow> exec_all xs s = Inr s' \<Longrightarrow> parked C W s'"
proof (induction xs arbitrary: s)
  case Nil
  then show ?case by simp
next
  case (Cons x xs)
  from Cons.prems(3) obtain s1 where s1: "exec x s = Inr s1" "exec_all xs s1 = Inr s'"
    by (auto split: sum.splits)
  from Cons.prems(1,2) s1(1) have "parked C W s1" by (auto dest: parked_exec)
  from Cons.IH [OF this _ s1(2)] Cons.prems(2) show ?case by simp
qed

subsection \<open>Terminate up to its Preempt\<close>


subsection \<open>Joiner lists along a run\<close>

lemma Preempt_fibers:
  assumes "Preempt sd s = Inr s'" and "fibers s q = Some f"
  shows "\<exists>f'. fibers s' q = Some f' \<and> terminated f' = terminated f \<and>
              wait_queue f' = wait_queue f"
  using assms(1)
proof (cases rule: Preempt_cases)
  case (idle sc)
  from SwitchTo_fibers [OF idle(3), of q] assms(2) show ?thesis by auto
next
  case (pop sc fi rest)
  from SwitchTo_fibers [OF pop(3), of q] assms(2) show ?thesis by auto
qed



subsection \<open>Two joins in the concrete state\<close>


lemma ex_world_two_joins:
  "\<exists>s1. exec_all [Op_Join 4, Op_Join 4] ex_world = Inr s1 \<and>
        active s1 = 4 \<and> debug s1 \<and>
        fibers s1 2 = Some (ex_fiber WORKER (Some 2) True) \<and>
        fibers s1 3 = Some (ex_fiber WORKER (Some 3) True) \<and>
        fibers s1 4 = Some ((ex_fiber WORKER None False)\<lparr>wait_queue := [3, 2]\<rparr>) \<and>
        scheds s1 0 = Some (ex_sched [])"
  by (simp add: Join_def Preempt_def SwitchTo_def DCHECK_def Let_def FiberActive_def
                ex_world_def ex_sched_def ex_fiber_def)




subsection \<open>Preempt\<close>

text \<open>C3: \<open>Preempt\<close> switches to the front fiber of the ready queue, which it removes, when
  the queue is not empty, and to the dispatcher when it is empty. When the switch succeeds
  the active fiber is that one and no other, and the rest of the ready queue is kept in
  its order.\<close>

theorem Preempt_front_or_dispatcher:
  assumes "scheds s sd = Some sc"
  shows "(ready_queue sc = [] \<longrightarrow> Preempt sd s = SwitchTo (dispatch_cntx sc) s) \<and>
         (\<forall>fi rest. ready_queue sc = fi # rest \<longrightarrow>
            Preempt sd s =
              SwitchTo fi (upd_fiber fi (\<lambda>f. f\<lparr>list_hook := False\<rparr>)
                            (upd_sched sd (\<lambda>c. c\<lparr>ready_queue := rest\<rparr>) s))) \<and>
         (\<forall>s'. Preempt sd s = Inr s' \<longrightarrow>
            FiberActive s' = (case ready_queue sc of [] \<Rightarrow> dispatch_cntx sc | fi # rest \<Rightarrow> fi) \<and>
            map_option ready_queue (scheds s' sd) =
              Some (case ready_queue sc of [] \<Rightarrow> [] | fi # rest \<Rightarrow> rest) \<and>
            (\<forall>p. p \<noteq> sd \<longrightarrow> scheds s' p = scheds s p))"
proof (intro conjI allI impI)
  assume "ready_queue sc = []"
  with assms show "Preempt sd s = SwitchTo (dispatch_cntx sc) s"
    by (simp add: Preempt_def)
next
  fix fi rest assume "ready_queue sc = fi # rest"
  with assms show "Preempt sd s =
      SwitchTo fi (upd_fiber fi (\<lambda>f. f\<lparr>list_hook := False\<rparr>)
                    (upd_sched sd (\<lambda>c. c\<lparr>ready_queue := rest\<rparr>) s))"
    by (simp add: Preempt_def)
next
  fix s' assume ok: "Preempt sd s = Inr s'"
  show "FiberActive s' = (case ready_queue sc of [] \<Rightarrow> dispatch_cntx sc | fi # rest \<Rightarrow> fi)"
    using assms ok
    by (auto simp: Preempt_def FiberActive_def split: list.splits dest: SwitchTo_Inr(1))
  show "map_option ready_queue (scheds s' sd) =
          Some (case ready_queue sc of [] \<Rightarrow> [] | fi # rest \<Rightarrow> rest)"
    using assms ok
    by (auto simp: Preempt_def split: list.splits dest!: SwitchTo_Inr(2))
  fix p assume "p \<noteq> sd"
  then show "scheds s' p = scheds s p"
    using assms ok
    by (auto simp: Preempt_def split: list.splits dest!: SwitchTo_Inr(2))
qed

theorem Preempt_front_or_dispatcher_witness:
  "(\<exists>s'. Preempt 0 ex_world = Inr s' \<and> FiberActive s' = 3 \<and>
          map_option ready_queue (scheds s' 0) = Some [4]) \<and>
   (\<exists>s'. Preempt 0 ex_world_idle = Inr s' \<and> FiberActive s' = 1 \<and>
          map_option ready_queue (scheds s' 0) = Some [])"
proof -
  have a: "scheds ex_world 0 = Some (ex_sched [3, 4])"
    by (simp add: ex_world_def)
  have b: "scheds ex_world_idle 0 = Some (ex_sched [])"
    by (simp add: ex_world_idle_def ex_world_def ex_sched_def)
  obtain s1 where s1: "Preempt 0 ex_world = Inr s1"
    by (auto simp: Preempt_def SwitchTo_def DCHECK_def ex_world_def ex_sched_def ex_fiber_def Let_def)
  obtain s2 where s2: "Preempt 0 ex_world_idle = Inr s2"
    by (auto simp: Preempt_def SwitchTo_def DCHECK_def ex_world_idle_def ex_world_def ex_sched_def
                   ex_fiber_def Let_def)
  from Preempt_front_or_dispatcher [OF a] s1
  have "FiberActive s1 = 3 \<and> map_option ready_queue (scheds s1 0) = Some [4]"
    by (simp add: ex_sched_def)
  moreover from Preempt_front_or_dispatcher [OF b] s2
  have "FiberActive s2 = 1 \<and> map_option ready_queue (scheds s2 0) = Some []"
    by (simp add: ex_sched_def)
  ultimately show ?thesis
    using s1 s2 by blast
qed

subsection \<open>SwitchTo\<close>

text \<open>C9: a successful \<open>SwitchTo\<close> on a target makes the target the active fiber and stores
  into the fiber it leaves that fiber's own continuation; the target's continuation is
  moved out, no other fiber changes, and "the fiber with the empty continuation is the
  active one" is carried from the state before to the state after.\<close>

theorem SwitchTo_lockstep:
  assumes "SwitchTo this s = Inr s'"
  shows "FiberActive s' = this \<and>
         (\<exists>p. fibers s' (FiberActive s) = Some p \<and> entry p = Some (FiberActive s)) \<and>
         (FiberActive s \<noteq> this \<longrightarrow>
            fibers s' this = map_option (\<lambda>f. f\<lparr>entry := None\<rparr>) (fibers s this) \<and>
            fibers s' (FiberActive s) =
              map_option (\<lambda>f. f\<lparr>entry := Some (FiberActive s)\<rparr>) (fibers s (FiberActive s))) \<and>
         (\<forall>q. q \<noteq> this \<longrightarrow> q \<noteq> FiberActive s \<longrightarrow> fibers s' q = fibers s q) \<and>
         (running_is_active s \<longrightarrow> running_is_active s')"
proof -
  note sw = SwitchTo_Inr [OF assms]
  obtain t c where t: "fibers s this = Some t" "entry t = Some c"
    using sw(5) by blast
  have act: "FiberActive s' = this"
    by (simp add: FiberActive_def sw(1))
  have prev: "\<exists>p. fibers s' (FiberActive s) = Some p \<and> entry p = Some (FiberActive s)"
    using assms
    by (auto simp: SwitchTo_def Let_def DCHECK_def FiberActive_def split: option.splits if_splits)
  have frame: "\<forall>q. q \<noteq> this \<longrightarrow> q \<noteq> FiberActive s \<longrightarrow> fibers s' q = fibers s q"
    using sw(8) by (simp add: FiberActive_def)
  have both: "FiberActive s \<noteq> this \<longrightarrow>
            fibers s' this = map_option (\<lambda>f. f\<lparr>entry := None\<rparr>) (fibers s this) \<and>
            fibers s' (FiberActive s) =
              map_option (\<lambda>f. f\<lparr>entry := Some (FiberActive s)\<rparr>) (fibers s (FiberActive s))"
    using sw(6,7) by (simp add: FiberActive_def)
  have inv: "\<forall>q f. fibers s' q = Some f \<longrightarrow> (entry f = None) = (q = FiberActive s')"
    if I: "\<forall>q f. fibers s q = Some f \<longrightarrow> (entry f = None) = (q = FiberActive s)"
  proof (intro allI impI)
    fix q f assume q: "fibers s' q = Some f"
    have ne: "FiberActive s \<noteq> this"
    proof
      assume "FiberActive s = this"
      with I t(1) have "entry t = None" by blast
      with t(2) show False by simp
    qed
    show "(entry f = None) = (q = FiberActive s')"
    proof (cases "q = this")
      case True
      with q both ne t act show ?thesis by auto
    next
      case False
      show ?thesis
      proof (cases "q = FiberActive s")
        case True
        with q prev act False show ?thesis by auto
      next
        case nq: False
        with False frame q have "fibers s q = Some f" by simp
        with I nq have "entry f \<noteq> None" by blast
        with False act show ?thesis by simp
      qed
    qed
  qed
  from inv have "running_is_active s \<longrightarrow> running_is_active s'"
    unfolding running_is_active_def by blast
  with act prev both frame show ?thesis by blast
qed

theorem SwitchTo_lockstep_witness:
  "running_is_active ex_world \<and>
   (\<exists>s'. SwitchTo 3 ex_world = Inr s' \<and> FiberActive s' = 3 \<and>
      map_option entry (fibers s' 2) = Some (Some 2) \<and>
      map_option entry (fibers s' 3) = Some None \<and>
      running_is_active s')"
proof -
  have I: "running_is_active ex_world"
    by (auto simp: running_is_active_def ex_world_def ex_fiber_def FiberActive_def split: if_splits)
  obtain s' where s': "SwitchTo 3 ex_world = Inr s'"
    by (auto simp: SwitchTo_def DCHECK_def ex_world_def ex_fiber_def Let_def)
  have a: "FiberActive ex_world = 2" "fibers ex_world 2 = Some (ex_fiber WORKER None False)"
      "fibers ex_world 3 = Some (ex_fiber WORKER (Some 3) True)"
    by (simp_all add: FiberActive_def ex_world_def)
  from SwitchTo_lockstep [OF s'] I a s' show ?thesis
    by (auto simp: ex_fiber_def)
qed

subsection \<open>Join\<close>

text \<open>C10: join on a fiber that has already terminated returns at once and leaves the
  whole state (joiner list, ready queue, active pointer, every field) as it was.\<close>

theorem Join_terminated_noop:
  assumes "fibers s (FiberActive s) = Some a" and "fibers s this = Some t"
    and "FiberActive s \<noteq> this" and "scheduler a = scheduler t" and "terminated t"
  shows "Join this s = Inr s"
  using assms by (simp add: Join_def Let_def)

theorem Join_terminated_noop_witness:
  "Join 4 ex_world_joined = Inr ex_world_joined"
proof -
  have "fibers ex_world_joined (FiberActive ex_world_joined) = Some (ex_fiber WORKER None False)"
    by (simp add: ex_world_joined_def ex_world_def FiberActive_def)
  moreover have "fibers ex_world_joined 4 = Some ((ex_fiber WORKER (Some 4) True)\<lparr>terminated := True\<rparr>)"
    by (simp add: ex_world_joined_def ex_world_def)
  moreover have "FiberActive ex_world_joined \<noteq> 4"
    by (simp add: ex_world_joined_def ex_world_def FiberActive_def)
  ultimately show ?thesis
    by (rule Join_terminated_noop) (simp_all add: ex_fiber_def)
qed

subsection \<open>The constructor\<close>

text \<open>C8: the constructor stores the supplied name when it is shorter than the buffer,
  and its first \<open>sizeof(name_) - 1\<close> bytes otherwise; the byte behind the stored name is NUL
  and lies inside the buffer. Read back as a C string, the stored name is that prefix
  whenever the supplied name holds no NUL byte itself.\<close>

theorem FiberInterface_ctor_name:
  assumes "buf \<noteq> []"
  shows "length (name (FiberInterface_ctor buf ty cnt nm)) = length buf \<and>
         (length nm < length buf \<longrightarrow>
            take (length nm) (name (FiberInterface_ctor buf ty cnt nm)) = nm \<and>
            name (FiberInterface_ctor buf ty cnt nm) ! length nm = CHR 0x00) \<and>
         (length buf \<le> length nm \<longrightarrow>
            take (length buf - 1) (name (FiberInterface_ctor buf ty cnt nm)) = take (length buf - 1) nm \<and>
            name (FiberInterface_ctor buf ty cnt nm) ! (length buf - 1) = CHR 0x00) \<and>
         (\<exists>i < length buf. name (FiberInterface_ctor buf ty cnt nm) ! i = CHR 0x00) \<and>
         (CHR 0x00 \<notin> set nm \<longrightarrow>
            c_str (name (FiberInterface_ctor buf ty cnt nm)) = take (length buf - 1) nm)"
proof -
  let ?len = "min (length nm) (length buf - 1)"
  let ?f = "FiberInterface_ctor buf ty cnt nm"
  have len: "?len < length buf"
    using assms by (cases buf) auto
  have nm: "name ?f = take ?len nm @ drop ?len (buf[?len := CHR 0x00])"
    by (simp add: FiberInterface_ctor_def Let_def)
  have l: "length (name ?f) = length buf"
    using len by (simp add: nm)
  have tk: "take ?len (name ?f) = take ?len nm"
    by (simp add: nm)
  have z: "name ?f ! ?len = CHR 0x00"
    using len by (simp add: nm nth_append)
  have fits: "take (length nm) (name ?f) = nm \<and> name ?f ! length nm = CHR 0x00"
    if "length nm < length buf"
  proof -
    from that have "?len = length nm" by simp
    with tk z show ?thesis by simp
  qed
  have trunc: "take (length buf - 1) (name ?f) = take (length buf - 1) nm \<and>
               name ?f ! (length buf - 1) = CHR 0x00"
    if "length buf \<le> length nm"
  proof -
    from that have "?len = length buf - 1" by simp
    with tk z show ?thesis by simp
  qed
  have cs: "c_str (name ?f) = take (length buf - 1) nm" if "CHR 0x00 \<notin> set nm"
  proof -
    have "\<forall>c \<in> set (take ?len nm). c \<noteq> CHR 0x00"
      using that by (auto dest: in_set_takeD)
    moreover have "drop ?len (buf[?len := CHR 0x00]) = CHR 0x00 # drop (Suc ?len) buf"
      using len by (simp add: Cons_nth_drop_Suc [symmetric])
    ultimately have "c_str (name ?f) = take ?len nm"
      by (simp add: c_str_def nm)
    then show ?thesis
      by (simp add: min_def)
  qed
  from l fits trunc len z cs show ?thesis
    by blast
qed

theorem FiberInterface_ctor_name_witness:
  "name (FiberInterface_ctor ''????'' MAIN 1 ''ab'') = ''ab'' @ [CHR 0x00] @ ''?'' \<and>
   c_str (name (FiberInterface_ctor ''????'' MAIN 1 ''ab'')) = ''ab'' \<and>
   c_str (name (FiberInterface_ctor ''????'' MAIN 1 ''main'')) = ''mai''"
  using FiberInterface_ctor_name [of "''????''" MAIN 1 "''ab''"]
        FiberInterface_ctor_name [of "''????''" MAIN 1 "''main''"]
  by (simp add: FiberInterface_ctor_def)

subsection \<open>ProcessSleep\<close>

text \<open>C1: \<open>ProcessSleep\<close> compares \<open>tp_ >= now\<close>. At time 10 a fiber whose deadline was 5
  stays in the sleep queue and is not marked ready, and a fiber whose deadline is 20 is
  taken from the sleep queue and marked ready: the opposite of waking the fibers whose
  deadline is at or before \<open>now\<close>.\<close>

theorem ProcessSleep_wakes_the_unexpired:
  "ProcessSleep 10 0 (ex_world_asleep 5) = Inr (ex_world_asleep 5) \<and>
   (\<exists>s'. ProcessSleep 10 0 (ex_world_asleep 20) = Inr s' \<and>
         map_option ready_queue (scheds s' 0) = Some [3] \<and>
         map_option sleep_queue (scheds s' 0) = Some [])"
proof
  have "ProcessSleep_loop 10 0 (ex_world_asleep 5) = Inr (ex_world_asleep 5)"
    by (rule ProcessSleep_loop_stop [where fi = 3 and rest = "[]" and t = 5])
       (simp_all add: ex_world_asleep_def ex_sched_def ex_fiber_def)
  then show "ProcessSleep 10 0 (ex_world_asleep 5) = Inr (ex_world_asleep 5)"
    by (simp add: ProcessSleep_def ex_world_asleep_def ex_sched_def)
next
  have "ProcessSleep 10 0 (ex_world_asleep 20) = ProcessSleep_loop 10 0 (ex_world_asleep 20)"
    by (simp add: ProcessSleep_def ex_world_asleep_def ex_sched_def)
  also have "\<dots> = Inr (upd_fiber 3 (\<lambda>f. f\<lparr>sleep_hook := False\<rparr>)
                       (upd_sched 0 (\<lambda>c. c\<lparr>sleep_queue := remove1 3 (sleep_queue c)\<rparr>)
                         (upd_fiber 3 (\<lambda>f. f\<lparr>list_hook := True\<rparr>)
                           (upd_sched 0 (\<lambda>c. c\<lparr>ready_queue := ready_queue c @ [3]\<rparr>)
                             (ex_world_asleep 20)))))"
    by (subst ProcessSleep_loop_wake [where fi = 3 and rest = "[]" and t = 20])
       (simp_all add: ex_world_asleep_def ex_sched_def ex_fiber_def MarkReady_def)
  finally show "\<exists>s'. ProcessSleep 10 0 (ex_world_asleep 20) = Inr s' \<and>
         map_option ready_queue (scheds s' 0) = Some [3] \<and>
         map_option sleep_queue (scheds s' 0) = Some []"
    by (simp add: ex_world_asleep_def ex_sched_def)
qed


subsection \<open>DefaultDispatch\<close>




subsection \<open>DispatcherImpl::Run\<close>

text \<open>C7: entered with a populated continuation, \<open>Run\<close> returns that continuation at once
  and does no dispatch work (the state is untouched, whatever algorithm is installed).
  Entered with an empty one, it succeeds exactly when the custom algorithm, if one is
  installed, and the default dispatch otherwise, succeeds and the switch to the
  scheduler's main fiber out of the state with \<open>is_terminating_\<close> set succeeds; the main
  fiber is then the active one and the dispatcher is marked terminating.\<close>

theorem Run_entry_shapes:
  "(c \<noteq> None \<longrightarrow> Run custom_algo this c s = Inr (Returned c, s)) \<and>
   (\<forall>r s'. Run custom_algo this None s = Inr (r, s') \<longleftrightarrow>
      r = SwitchedAway \<and>
      (\<exists>s1 sc. (case custom_algo of
                  Some algo \<Rightarrow> algo (sched s) s
                | None \<Rightarrow> DefaultDispatch (sched s) s) = Inr s1 \<and>
               scheds s1 (sched s1) = Some sc \<and>
               SwitchTo (main_cntx sc)
                 (upd_fiber this (\<lambda>f. f\<lparr>is_terminating := True\<rparr>) s1) = Inr s')) \<and>
   (\<forall>r s'. Run custom_algo this None s = Inr (r, s') \<longrightarrow>
      (\<exists>sc. scheds s' (sched s') = Some sc \<and> FiberActive s' = main_cntx sc) \<and>
      (\<forall>d. fibers s' this = Some d \<longrightarrow> is_terminating d))"
proof (intro conjI allI impI)
  assume "c \<noteq> None"
  then show "Run custom_algo this c s = Inr (Returned c, s)"
    by (simp add: Run_def)
next
  fix r s'
  show "Run custom_algo this None s = Inr (r, s') \<longleftrightarrow>
      r = SwitchedAway \<and>
      (\<exists>s1 sc. (case custom_algo of
                  Some algo \<Rightarrow> algo (sched s) s
                | None \<Rightarrow> DefaultDispatch (sched s) s) = Inr s1 \<and>
               scheds s1 (sched s1) = Some sc \<and>
               SwitchTo (main_cntx sc)
                 (upd_fiber this (\<lambda>f. f\<lparr>is_terminating := True\<rparr>) s1) = Inr s')"
    by (auto simp: Run_def Let_def split: sum.splits option.splits)
next
  fix r s' assume run: "Run custom_algo this None s = Inr (r, s')"
  then obtain s1 sc where sc: "scheds s1 (sched s1) = Some sc"
    and sw: "SwitchTo (main_cntx sc)
               (upd_fiber this (\<lambda>f. f\<lparr>is_terminating := True\<rparr>) s1) = Inr s'"
    by (auto simp: Run_def Let_def split: sum.splits option.splits)
  note sf = SwitchTo_Inr [OF sw]
  from sf(1,2,3) sc
  show "\<exists>sc. scheds s' (sched s') = Some sc \<and> FiberActive s' = main_cntx sc"
    by (simp add: FiberActive_def)
  fix d assume "fibers s' this = Some d"
  from SwitchTo_keeps_is_terminating [OF sw this]
  show "is_terminating d" by auto
qed

theorem Run_entry_shapes_witness:
  "Run None 1 (Some 0) (ex_world_asleep 5) = Inr (Returned (Some 0), ex_world_asleep 5) \<and>
   Run (Some (\<lambda>sd s. Inr s)) 1 (Some 0) (ex_world_asleep 5)
     = Inr (Returned (Some 0), ex_world_asleep 5) \<and>
   (\<exists>s'. Run None 1 None (ex_world_asleep 5) = Inr (SwitchedAway, s') \<and>
         FiberActive s' = 0 \<and> map_option is_terminating (fibers s' 1) = Some True \<and>
         map_option terminate_queue (scheds s' 0) = Some []) \<and>
   (\<exists>s'. Run (Some (\<lambda>sd s. Inr s)) 1 None (ex_world_asleep 5) = Inr (SwitchedAway, s') \<and>
         FiberActive s' = 0 \<and> map_option is_terminating (fibers s' 1) = Some True \<and>
         map_option terminate_queue (scheds s' 0) = Some [2])"
proof -
  let ?w = "ex_world_asleep 5"
  let ?skip = "Some (\<lambda>sd s. Inr s) :: (nat \<Rightarrow> world \<Rightarrow> error + world) option"
  note R = Run_entry_shapes [of "Some 0" None 1 ?w] Run_entry_shapes [of "Some 0" ?skip 1 ?w]
  have a: "Run None 1 (Some 0) ?w = Inr (Returned (Some 0), ?w)"
      "Run ?skip 1 (Some 0) ?w = Inr (Returned (Some 0), ?w)"
    using R by simp_all
  obtain s1 where s1: "DestroyTerminated 0 ?w = Inr s1"
    using ex_world_asleep_reaped by blast
  then have d: "DefaultDispatch 0 ?w = Inr s1"
    by (simp add: DefaultDispatch_def DCHECK_def ex_world_asleep_def ex_sched_def)
  note fr = DestroyTerminated_frame [OF s1]
  have sc: "scheds ?w 0 =
      Some ((ex_sched [])\<lparr>sleep_queue := [3], terminate_queue := [2], num_worker_fibers := 1\<rparr>)"
    by (simp add: ex_world_asleep_def)
  have f0: "fibers s1 0 = Some (ex_fiber MAIN (Some 0) False)"
    using DestroyTerminated_others [OF s1 sc, of 0] by (simp add: ex_world_asleep_def)
  have f1: "fibers s1 1 = Some (ex_fiber DISPATCH None False)"
    using DestroyTerminated_others [OF s1 sc, of 1] by (simp add: ex_world_asleep_def)
  have "\<exists>s'. Run None 1 None ?w = Inr (SwitchedAway, s') \<and>
          map_option is_terminating (fibers s' 1) = Some True \<and>
          map_option terminate_queue (scheds s' 0) = Some [] \<and>
          sched s' = 0 \<and> map_option main_cntx (scheds s' 0) = Some 0"
    using d fr f0 f1
    by (simp add: Run_def SwitchTo_def DCHECK_def Let_def ex_world_asleep_def ex_sched_def
                  ex_fiber_def)
  then obtain s' where s': "Run None 1 None ?w = Inr (SwitchedAway, s')"
      "map_option is_terminating (fibers s' 1) = Some True"
      "map_option terminate_queue (scheds s' 0) = Some []"
      "sched s' = 0" "map_option main_cntx (scheds s' 0) = Some 0" by blast
  have "\<exists>s'. Run ?skip 1 None ?w = Inr (SwitchedAway, s') \<and>
          map_option is_terminating (fibers s' 1) = Some True \<and>
          map_option terminate_queue (scheds s' 0) = Some [2] \<and>
          sched s' = 0 \<and> map_option main_cntx (scheds s' 0) = Some 0"
    by (simp add: Run_def SwitchTo_def DCHECK_def Let_def ex_world_asleep_def ex_sched_def
                  ex_fiber_def)
  then obtain s'' where s'': "Run ?skip 1 None ?w = Inr (SwitchedAway, s'')"
      "map_option is_terminating (fibers s'' 1) = Some True"
      "map_option terminate_queue (scheds s'' 0) = Some [2]"
      "sched s'' = 0" "map_option main_cntx (scheds s'' 0) = Some 0" by blast
  from Run_entry_shapes [of None None 1 ?w] s'(1)
  obtain sc where "scheds s' (sched s') = Some sc" "FiberActive s' = main_cntx sc"
    by blast
  with s'(4,5) have "FiberActive s' = 0" by simp
  moreover from Run_entry_shapes [of None ?skip 1 ?w] s''(1)
  obtain sc' where "scheds s'' (sched s'') = Some sc'" "FiberActive s'' = main_cntx sc'"
    by blast
  with s''(4,5) have "FiberActive s'' = 0" by simp
  ultimately show ?thesis
    using a s'(1,2,3) s''(1,2,3) by blast
qed

subsection \<open>Join and Terminate\<close>




text \<open>C4, as stated, fails in its last part: the main fiber joins worker 2, which runs and
  goes to sleep; the dispatcher, entered with no custom algorithm, runs its default
  dispatch and switches back to the main fiber, which so resumes inside \<open>Join\<close> while
  worker 2 has not terminated and still holds it in its joiner list.\<close>

theorem Join_main_resumes_early:
  "FiberActive ex_world_main = 0 \<and>
   (\<exists>s1 s2 s3.
      Join 2 ex_world_main = Inr s1 \<and> FiberActive s1 = 2 \<and>
      map_option wait_queue (fibers s1 2) = Some [0] \<and>
      WaitUntil 0 100 2 s1 = Inr s2 \<and> FiberActive s2 = 1 \<and>
      Run None 1 None s2 = Inr (SwitchedAway, s3) \<and> FiberActive s3 = 0 \<and>
      map_option terminated (fibers s3 2) = Some False \<and>
      map_option wait_queue (fibers s3 2) = Some [0])"
  by (simp add: Join_def WaitUntil_def Run_def DefaultDispatch_def DestroyTerminated_Nil
                Preempt_def SwitchTo_def DCHECK_def Let_def FiberActive_def tp_of_def
                ex_world_main_def ex_sched_def ex_fiber_def)

text \<open>C4, amended: \<open>Join\<close> fails its first \<open>CHECK\<close> when the caller is the fiber joined and
  its second when their schedulers differ; otherwise it returns at once when the fiber has
  terminated, and else pushes the caller onto the fiber's joiner list and calls \<open>Preempt\<close>.
  A caller that is detached (in no queue and no joiner list, and not the main or
  dispatcher fiber of a scheduler) is then not the active fiber, and stays so through any
  run of calls legal for it, that is, until the fiber joined terminates.\<close>

theorem Join_contract:
  assumes "fibers s (FiberActive s) = Some a" and "fibers s this = Some t"
  shows "(FiberActive s = this \<longrightarrow> Join this s = Inl (CheckFailed ''active != this'')) \<and>
         (FiberActive s \<noteq> this \<longrightarrow> scheduler a \<noteq> scheduler t \<longrightarrow>
            Join this s = Inl (CheckFailed ''active->scheduler_ == scheduler_'')) \<and>
         (FiberActive s \<noteq> this \<longrightarrow> scheduler a = scheduler t \<longrightarrow> terminated t \<longrightarrow>
            Join this s = Inr s) \<and>
         (FiberActive s \<noteq> this \<longrightarrow> scheduler a = scheduler t \<longrightarrow> \<not> terminated t \<longrightarrow>
            (\<forall>sd. scheduler t = Some sd \<longrightarrow>
               Join this s =
                 Preempt sd
                   (upd_fiber (FiberActive s) (\<lambda>f. f\<lparr>list_hook := True\<rparr>)
                      (upd_fiber this (\<lambda>f. f\<lparr>wait_queue := FiberActive s # wait_queue f\<rparr>) s))) \<and>
            (\<forall>s'. Join this s = Inr s' \<longrightarrow>
               map_option wait_queue (fibers s' this) = Some (FiberActive s # wait_queue t) \<and>
               (detached (FiberActive s) {} s \<longrightarrow>
                  FiberActive s' \<noteq> FiberActive s \<and>
                  (\<forall>ops s''. list_all (legal (FiberActive s) {this}) ops \<longrightarrow>
                     exec_all ops s' = Inr s'' \<longrightarrow> FiberActive s'' \<noteq> FiberActive s))))"
proof (intro conjI impI allI)
  assume "FiberActive s = this"
  then show "Join this s = Inl (CheckFailed ''active != this'')"
    by (simp add: Join_def)
next
  assume "FiberActive s \<noteq> this" "scheduler a \<noteq> scheduler t"
  with assms show "Join this s = Inl (CheckFailed ''active->scheduler_ == scheduler_'')"
    by (simp add: Join_def)
next
  assume "FiberActive s \<noteq> this" "scheduler a = scheduler t" "terminated t"
  with assms show "Join this s = Inr s"
    by (simp add: Join_def)
next
  fix sd
  assume "FiberActive s \<noteq> this" "scheduler a = scheduler t" "\<not> terminated t"
    "scheduler t = Some sd"
  with assms show "Join this s =
      Preempt sd
        (upd_fiber (FiberActive s) (\<lambda>f. f\<lparr>list_hook := True\<rparr>)
           (upd_fiber this (\<lambda>f. f\<lparr>wait_queue := FiberActive s # wait_queue f\<rparr>) s))"
    by (simp add: Join_def Let_def)
next
  fix s'
  assume ne: "FiberActive s \<noteq> this" and nt: "\<not> terminated t" and ok: "Join this s = Inr s'"
  from ok obtain sd where p: "Preempt sd (upd_fiber (active s) (\<lambda>f. f\<lparr>list_hook := True\<rparr>)
        (upd_fiber this (\<lambda>f. f\<lparr>wait_queue := active s # wait_queue f\<rparr>) s)) = Inr s'"
    using assms(2) nt by (cases rule: Join_cases) auto
  let ?p = "upd_fiber (active s) (\<lambda>f. f\<lparr>list_hook := True\<rparr>)
        (upd_fiber this (\<lambda>f. f\<lparr>wait_queue := active s # wait_queue f\<rparr>) s)"
  from ne assms(2) have "fibers ?p this = Some (t\<lparr>wait_queue := active s # wait_queue t\<rparr>)"
    by (simp add: FiberActive_def)
  from Preempt_fibers [OF p this]
  show "map_option wait_queue (fibers s' this) = Some (FiberActive s # wait_queue t)"
    by (auto simp: FiberActive_def)
  { assume d: "detached (FiberActive s) {} s"
    then have "detached (active s) {this} s"
      unfolding detached_def FiberActive_def by blast
    from det_Preempt [OF det_Join_wait [OF this] p]
    have pk: "parked (FiberActive s) {this} s'" by (simp add: FiberActive_def)
    then show "FiberActive s' \<noteq> FiberActive s" by (simp add: parked_def)
    fix ops s''
    assume "list_all (legal (FiberActive s) {this}) ops" "exec_all ops s' = Inr s''"
    from parked_exec_all [OF pk this] show "FiberActive s'' \<noteq> FiberActive s"
      by (simp add: parked_def) }
qed

theorem Join_contract_witness:
  "Join 2 ex_world = Inl (CheckFailed ''active != this'') \<and>
   Join 4 (upd_fiber 4 (\<lambda>f. f\<lparr>scheduler := Some 1\<rparr>) ex_world)
     = Inl (CheckFailed ''active->scheduler_ == scheduler_'') \<and>
   Join 4 ex_world_joined = Inr ex_world_joined \<and>
   detached 2 {} ex_world \<and>
   (\<exists>s' s''. Join 4 ex_world = Inr s' \<and>
       map_option wait_queue (fibers s' 4) = Some [2] \<and> FiberActive s' = 3 \<and>
       exec_all [Op_Join 4] s' = Inr s'' \<and> FiberActive s'' = 4)"
proof -
  let ?a = "ex_fiber WORKER None False"
  let ?t = "ex_fiber WORKER (Some 4) True"
  have act: "FiberActive ex_world = 2" by (simp add: FiberActive_def ex_world_def)
  have a: "fibers ex_world (FiberActive ex_world) = Some ?a"
    and t: "fibers ex_world 4 = Some ?t" and a2: "fibers ex_world 2 = Some ?a"
    by (simp_all add: FiberActive_def ex_world_def)
  from Join_contract [OF a a2] act
  have c1: "Join 2 ex_world = Inl (CheckFailed ''active != this'')" by simp
  let ?w2 = "upd_fiber 4 (\<lambda>f. f\<lparr>scheduler := Some 1\<rparr>) ex_world"
  have "fibers ?w2 (FiberActive ?w2) = Some ?a" "fibers ?w2 4 = Some (?t\<lparr>scheduler := Some 1\<rparr>)"
    by (simp_all add: FiberActive_def ex_world_def)
  from Join_contract [OF this]
  have c2: "Join 4 ?w2 = Inl (CheckFailed ''active->scheduler_ == scheduler_'')"
    by (simp add: FiberActive_def ex_world_def ex_fiber_def)
  have "fibers ex_world_joined (FiberActive ex_world_joined) = Some ?a"
    "fibers ex_world_joined 4 = Some (?t\<lparr>terminated := True\<rparr>)"
    by (simp_all add: FiberActive_def ex_world_joined_def ex_world_def)
  from Join_contract [OF this]
  have c3: "Join 4 ex_world_joined = Inr ex_world_joined"
    by (simp add: FiberActive_def ex_world_joined_def ex_world_def ex_fiber_def)
  have d: "detached 2 {} ex_world"
    by (rule detachedI)
       (auto simp: ex_world_def ex_sched_def ex_fiber_def split: if_splits)
  from ex_world_two_joins obtain s1 where s1:
    "exec_all [Op_Join 4, Op_Join 4] ex_world = Inr s1" "active s1 = 4" by blast
  then obtain s' where s': "Join 4 ex_world = Inr s'" "exec_all [Op_Join 4] s' = Inr s1"
    by (auto split: sum.splits)
  have "FiberActive s' = 3"
    using s'(1)
    by (auto simp: Join_def Preempt_def SwitchTo_def DCHECK_def Let_def FiberActive_def
                  ex_world_def ex_sched_def ex_fiber_def)
  moreover from Join_contract [OF a t] act s'(1)
  have "map_option wait_queue (fibers s' 4) = Some [2]"
    by (simp add: ex_fiber_def)
  ultimately show ?thesis
    using c1 c2 c3 d s' s1(2) by (auto simp: FiberActive_def)
qed




end
